theory Spec2Isabelle
  imports Main "HOL-Library.Word" "HOL-Library.Log_Nat"
begin

unbundle bit_operations_syntax

section \<open>The benchsort data file: row codec, header and bounded loader\<close>

text \<open>
  A shallow embedding of \<^verbatim>\<open>cmd/benchsort/main.go\<close>. Go's \<^verbatim>\<open>int\<close>,
  \<^verbatim>\<open>int64\<close> and \<^verbatim>\<open>uint64\<close> are 64-bit words (a 64-bit platform); \<open>sint\<close> reads a
  word as the signed value and \<open>unat\<close> as the unsigned one, and a conversion between the
  signed and the unsigned type keeps the bits. \<^verbatim>\<open>make\<close> panics where the runtime does, for
  a negative size and for more bytes than the runtime ever allocates (\<open>makeslice\<close> below);
  within this bound an allocation succeeds, the memory of the machine not being modelled,
  and \<^verbatim>\<open>append\<close> always succeeds.
\<close>

type_synonym byte = "8 word"
type_synonym int64 = "64 word"
type_synonym uint64 = "64 word"

subsection \<open>Errors and results\<close>

text \<open>
  \<open>New msg\<close> is \<^verbatim>\<open>errors.New(msg)\<close> and \<open>EOF\<close> is \<^verbatim>\<open>io.EOF\<close>; \<^verbatim>\<open>errors.Trace\<close> only
  annotates an error with the call site and is the identity here. A Go function that
  returns \<^verbatim>\<open>(x, nil)\<close> is \<open>Returns x\<close>, one that returns \<^verbatim>\<open>(nil, err)\<close> is \<open>Fails err\<close>, and a
  run-time panic is \<open>Panics msg\<close>.
\<close>

datatype error = New string | EOF

datatype 'a result = Returns 'a | Fails error | Panics string

subsection \<open>\<^verbatim>\<open>make\<close> for slices\<close>

text \<open>
  \<open>makeslice elem n m\<close> is the check of the runtime for \<^verbatim>\<open>make([]T, n, m)\<close> with elements of
  \<open>elem\<close> bytes (\<^verbatim>\<open>make([]T, n)\<close> is \<^verbatim>\<open>make([]T, n, n)\<close>): the message of the panic, or
  \<open>None\<close> when the slice is allocated. \<open>maxAlloc\<close> is the largest number of bytes the
  runtime allocates on 64-bit Linux.
\<close>

definition maxAlloc :: nat where
  "maxAlloc = 2 ^ 48"

definition makeslice :: "nat \<Rightarrow> int64 \<Rightarrow> int64 \<Rightarrow> string option" where
  "makeslice elem n m =
     (if sint n < 0 \<or> maxAlloc < elem * nat (sint n)
      then Some ''makeslice: len out of range''
      else if sint m < sint n \<or> maxAlloc < elem * nat (sint m)
      then Some ''makeslice: cap out of range''
      else None)"

subsection \<open>\<^verbatim>\<open>encoding/binary\<close>: big-endian 64-bit values\<close>

definition PutUint64 :: "uint64 \<Rightarrow> byte list" where
  "PutUint64 v = [ucast (drop_bit 56 v), ucast (drop_bit 48 v), ucast (drop_bit 40 v),
                  ucast (drop_bit 32 v), ucast (drop_bit 24 v), ucast (drop_bit 16 v),
                  ucast (drop_bit 8 v), ucast v]"

definition Uint64 :: "byte list \<Rightarrow> uint64" where
  "Uint64 b = ucast (b ! 7) OR push_bit 8 (ucast (b ! 6)) OR push_bit 16 (ucast (b ! 5)) OR
              push_bit 24 (ucast (b ! 4)) OR push_bit 32 (ucast (b ! 3)) OR
              push_bit 40 (ucast (b ! 2)) OR push_bit 48 (ucast (b ! 1)) OR
              push_bit 56 (ucast (b ! 0))"

subsection \<open>\<^verbatim>\<open>os.File.Read\<close>\<close>

text \<open>
  The open file is the list of its unread bytes. \<open>Read len fd\<close> is \<^verbatim>\<open>fd.Read(buf)\<close> for a
  fresh buffer of \<open>len\<close> zero bytes: it fills the buffer with the next \<open>n\<close> bytes, where \<open>n\<close>
  is \<open>len\<close> or what is left of the file, and returns the buffer, \<open>n\<close>, the error
  (\<^verbatim>\<open>io.EOF\<close> when nothing is left and \<open>len\<close> is positive) and the file after the read.
\<close>

definition Read :: "nat \<Rightarrow> byte list \<Rightarrow> (byte list \<times> nat \<times> error option) \<times> byte list" where
  "Read len fd =
     (let n = min len (length fd)
      in ((take n fd @ replicate (len - n) 0, n, if n = 0 \<and> 0 < len then Some EOF else None),
          drop n fd))"

subsection \<open>Rows, the scalar codec, the random source and the global variables\<close>

record 'd comparableRow =
  key :: "'d list"
  val :: "'d list"
  handle :: int64

text \<open>
  The packages \<^verbatim>\<open>util/codec\<close> and \<^verbatim>\<open>util/types\<close> are parameters of the row functions:
  \<open>'d\<close> is \<^verbatim>\<open>types.Datum\<close>, \<open>DatumSize\<close> is the number of bytes of a \<^verbatim>\<open>types.Datum\<close> in
  memory, and a function returns the pair of its Go results.
\<close>

record 'd codec =
  EncodeKey :: "byte list \<Rightarrow> 'd list \<Rightarrow> byte list \<times> error option"
  Decode :: "byte list \<Rightarrow> int64 \<Rightarrow> 'd list \<times> error option"
  NewDatum :: "int64 \<Rightarrow> 'd"
  NewIntDatum :: "int64 \<Rightarrow> 'd"
  GetInt64 :: "'d \<Rightarrow> int64"
  DatumSize :: nat

text \<open>\<^verbatim>\<open>math/rand\<close>: a generator state \<open>'r\<close> with \<^verbatim>\<open>r.Int()\<close> and \<^verbatim>\<open>r.Int63()\<close>.\<close>

record 'r rand =
  rand_Int :: "'r \<Rightarrow> int64 \<times> 'r"
  rand_Int63 :: "'r \<Rightarrow> int64 \<times> 'r"

record globals =
  scale :: int64
  keySize :: int64
  valSize :: int64

subsection \<open>\<^verbatim>\<open>nextRow\<close>\<close>

fun draw :: "'d codec \<Rightarrow> 'r rand \<Rightarrow> nat \<Rightarrow> 'r \<Rightarrow> 'd list \<times> 'r" where
  "draw c rnd 0 r = ([], r)"
| "draw c rnd (Suc n) r =
     (case rand_Int rnd r of (x, r1) \<Rightarrow>
        (case draw c rnd n r1 of (xs, r2) \<Rightarrow> (NewDatum c x # xs, r2)))"

definition nextRow ::
  "'d codec \<Rightarrow> 'r rand \<Rightarrow> 'r \<Rightarrow> int64 \<Rightarrow> int64 \<Rightarrow> 'd comparableRow result \<times> 'r" where
  "nextRow c rnd r ks vs =
     (case makeslice (DatumSize c) ks ks of
        Some p \<Rightarrow> (Panics p, r)
      | None \<Rightarrow>
         (case draw c rnd (unat ks) r of (k, r1) \<Rightarrow>
           (case makeslice (DatumSize c) vs vs of
              Some p \<Rightarrow> (Panics p, r1)
            | None \<Rightarrow>
               (case draw c rnd (unat vs) r1 of (v, r2) \<Rightarrow>
                 (case rand_Int63 rnd r2 of (h, r3) \<Rightarrow>
                    (Returns \<lparr>key = k, val = v, handle = h\<rparr>, r3))))))"

subsection \<open>\<^verbatim>\<open>encodeRow\<close> and \<^verbatim>\<open>decodeRow\<close>\<close>

text \<open>\<open>encodeRow\<close> returns the pair of its Go results: the buffer and the error.\<close>

definition encodeRow ::
  "'d codec \<Rightarrow> byte list \<Rightarrow> 'd comparableRow \<Rightarrow> byte list \<times> error option" where
  "encodeRow c b row =
     (case EncodeKey c [] (key row) of
        (body1, Some err) \<Rightarrow> (b, Some err)
      | (body1, None) \<Rightarrow>
     (case EncodeKey c body1 (val row) of
        (body2, Some err) \<Rightarrow> (b, Some err)
      | (body2, None) \<Rightarrow>
     (case EncodeKey c body2 [NewIntDatum c (handle row)] of
        (body3, Some err) \<Rightarrow> (b, Some err)
      | (body3, None) \<Rightarrow> (b @ PutUint64 (word_of_nat (length body3)) @ body3, None))))"

text \<open>
  \<open>decodeRow\<close> reads the global \<open>keySize\<close> and \<open>valSize\<close>; \<open>decodeBody\<close> is its second
  half, from the read of the \<open>rowSize\<close> bytes on. It allocates \<open>dcod\<close> with the capacity
  \<open>keySize + valSize + 1\<close> before it reads, and \<open>rowBytes\<close> with the length read from the file. The three slice expressions of the
  last statement panic unless \<open>0 \<le> keySize \<le> keySize + valSize < len(dcod)\<close> (the
  capacity of \<open>dcod\<close> is at least its length, so no other bound matters).
\<close>

definition decodeBody ::
  "'d codec \<Rightarrow> globals \<Rightarrow> nat \<Rightarrow> byte list \<Rightarrow> 'd comparableRow result \<times> byte list" where
  "decodeBody c g rowSize fd1 =
     (case Read rowSize fd1 of ((rowBytes, n, err), fd2) \<Rightarrow>
       (if n \<noteq> rowSize then (Fails (New ''incorrect row''), fd2)
        else
         (case err of
            Some e \<Rightarrow> (Fails e, fd2)
          | None \<Rightarrow>
             (case Decode c rowBytes (keySize g + valSize g + 1) of
                (dcod, Some e) \<Rightarrow> (Fails e, fd2)
              | (dcod, None) \<Rightarrow>
                 (let lo = keySize g; hi = keySize g + valSize g
                  in if 0 \<le> sint lo \<and> sint lo \<le> sint hi \<and> sint hi < int (length dcod)
                     then (Returns \<lparr>key = take (unat lo) dcod,
                                     val = take (unat hi - unat lo) (drop (unat lo) dcod),
                                     handle = GetInt64 c (dcod ! unat hi)\<rparr>, fd2)
                     else (Panics ''slice bounds out of range'', fd2))))))"

definition decodeRow ::
  "'d codec \<Rightarrow> globals \<Rightarrow> byte list \<Rightarrow> 'd comparableRow result \<times> byte list" where
  "decodeRow c g fd =
     (case makeslice (DatumSize c) 0 (keySize g + valSize g + 1) of
        Some p \<Rightarrow> (Panics p, fd)
      | None \<Rightarrow>
         (case Read 8 fd of ((head, n, err), fd1) \<Rightarrow>
           (if n \<noteq> 8 then (Fails (New ''incorrect header''), fd1)
            else
             (case err of
                Some e \<Rightarrow> (Fails e, fd1)
              | None \<Rightarrow>
                 (let rowSize = Uint64 head
                  in case makeslice 1 rowSize rowSize of
                       Some p \<Rightarrow> (Panics p, fd1)
                     | None \<Rightarrow> decodeBody c g (unat rowSize) fd1)))))"

subsection \<open>\<^verbatim>\<open>encodeMeta\<close> and \<^verbatim>\<open>decodeMeta\<close>\<close>

definition encodeMeta :: "byte list \<Rightarrow> int64 \<Rightarrow> int64 \<Rightarrow> int64 \<Rightarrow> byte list" where
  "encodeMeta b sc ks vs = ((b @ PutUint64 sc) @ PutUint64 ks) @ PutUint64 vs"

text \<open>\<open>decodeMeta\<close> returns its error, the file after the read and the globals it has set.\<close>

definition decodeMeta :: "byte list \<Rightarrow> globals \<Rightarrow> error option \<times> byte list \<times> globals" where
  "decodeMeta fd g =
     (case Read 24 fd of ((meta, n, err), fd1) \<Rightarrow>
        if err \<noteq> None \<or> n \<noteq> 24
        then (if n \<noteq> 24 then (Some (New ''incorrect meta data''), fd1, g) else (err, fd1, g))
        else
          (let g1 = g\<lparr>scale := Uint64 (take 8 meta)\<rparr>
           in if sint (scale g1) \<le> 0
              then (Some (New ''number of rows must be positive''), fd1, g1)
              else
                (let g2 = g1\<lparr>keySize := Uint64 (take 8 (drop 8 meta))\<rparr>
                 in if sint (keySize g2) \<le> 0
                    then (Some (New ''key size must be positive''), fd1, g2)
                    else
                      (let g3 = g2\<lparr>valSize := Uint64 (drop 16 meta)\<rparr>
                       in if sint (valSize g3) \<le> 0
                          then (Some (New ''value size must be positive''), fd1, g3)
                          else (None, fd1, g3)))))"

subsection \<open>\<^verbatim>\<open>export\<close>\<close>

text \<open>
  \<open>export\<close> returns the bytes it writes to \<^verbatim>\<open>data.out\<close>; where it fails the file has
  been truncated and nothing is written. Failures of the file system are not modelled.
\<close>

fun export_rows ::
  "'d codec \<Rightarrow> 'r rand \<Rightarrow> globals \<Rightarrow> nat \<Rightarrow> 'r \<Rightarrow> byte list \<Rightarrow> byte list result \<times> 'r" where
  "export_rows c rnd g 0 r outputBytes = (Returns outputBytes, r)"
| "export_rows c rnd g (Suc n) r outputBytes =
     (case nextRow c rnd r (keySize g) (valSize g) of
        (Panics p, r1) \<Rightarrow> (Panics p, r1)
      | (Fails e, r1) \<Rightarrow> (Fails e, r1)
      | (Returns row, r1) \<Rightarrow>
          (case encodeRow c outputBytes row of
             (b, Some err) \<Rightarrow> (Fails err, r1)
           | (b, None) \<Rightarrow> export_rows c rnd g n r1 b))"

definition export :: "'d codec \<Rightarrow> 'r rand \<Rightarrow> globals \<Rightarrow> 'r \<Rightarrow> byte list result \<times> 'r" where
  "export c rnd g r =
     export_rows c rnd g (nat (sint (scale g))) r
       (encodeMeta [] (scale g) (keySize g) (valSize g))"

subsection \<open>\<^verbatim>\<open>float64\<close> arithmetic\<close>

text \<open>
  A \<^verbatim>\<open>float64\<close> is the rational number it stands for. \<open>float64 q\<close> is the value nearest
  to \<open>q\<close> with a significand of 53 bits, ties going to the even significand: the rounding
  of every IEEE 754 binary64 conversion, product and quotient whose result is in the
  normal range. All values met here are: an \<^verbatim>\<open>int\<close> is below \<open>2 ^ 63\<close> in magnitude, an
  \<^verbatim>\<open>int\<close> divided by 100 is zero or at least \<open>1 / 100\<close>, and so is the product of the two,
  which is below \<open>2 ^ 126\<close>. \<open>ilog2 q\<close> is the exponent of a positive \<open>q\<close>, the integer \<open>e\<close>
  with \<open>2 ^ e \<le> q < 2 ^ (e + 1)\<close>, and \<open>round_half_even\<close> rounds to the nearest integer,
  a tie going to the even one.
\<close>

definition ilog2 :: "rat \<Rightarrow> int" where
  "ilog2 q =
     (case quotient_of q of (a, b) \<Rightarrow>
        (let e = bitlen a - bitlen b in if 2 powi e \<le> q then e else e - 1))"

definition round_half_even :: "rat \<Rightarrow> int" where
  "round_half_even x =
     (let f = \<lfloor>x\<rfloor>; d = x - of_int f
      in if d < 1 / 2 then f else if 1 / 2 < d then f + 1 else if even f then f else f + 1)"

definition float64 :: "rat \<Rightarrow> rat" where
  "float64 q =
     (if q = 0 then 0
      else (let ulp = 2 powi (ilog2 \<bar>q\<bar> - 52) in of_int (round_half_even (q / ulp)) * ulp))"

text \<open>
  \<^verbatim>\<open>int(x)\<close> for a \<^verbatim>\<open>float64\<close> \<open>x\<close> discards the fraction. The language leaves the result
  open where the integer does not fit; the amd64 instruction gives the least \<^verbatim>\<open>int64\<close>.
\<close>

definition int_of_float64 :: "rat \<Rightarrow> int64" where
  "int_of_float64 x =
     (let t = (if 0 \<le> x then \<lfloor>x\<rfloor> else \<lceil>x\<rceil>)
      in if - (2 ^ 63) \<le> t \<and> t < 2 ^ 63 then word_of_int t else 0x8000000000000000)"

text \<open>\<^verbatim>\<open>totalRows := int(float64(scale) * (float64(ratio) / 100.0))\<close>\<close>

definition totalRows :: "int64 \<Rightarrow> int64 \<Rightarrow> int64" where
  "totalRows sc ratio =
     int_of_float64
       (float64 (float64 (of_int (sint sc)) * float64 (float64 (of_int (sint ratio)) / 100)))"

subsection \<open>\<^verbatim>\<open>load\<close>\<close>

text \<open>
  The loop of \<open>load\<close>, with the number of iterations left. \<open>load\<close> takes the content of
  \<^verbatim>\<open>data.out\<close> (\<open>None\<close>: the file does not exist) and returns, with its result, the
  unread rest of the file and the globals when it stops. After the header it allocates
  \<open>data\<close>, a slice of pointers (8 bytes each) with the capacity \<open>scale\<close>, before it computes
  \<open>totalRows\<close> and decodes any record.
\<close>

fun load_rows ::
  "'d codec \<Rightarrow> globals \<Rightarrow> nat \<Rightarrow> byte list \<Rightarrow> 'd comparableRow list
     \<Rightarrow> 'd comparableRow list result \<times> byte list" where
  "load_rows c g 0 fd data = (Returns data, fd)"
| "load_rows c g (Suc n) fd data =
     (case decodeRow c g fd of
        (Returns row, fd1) \<Rightarrow> load_rows c g n fd1 (data @ [row])
      | (Fails err, fd1) \<Rightarrow> (Fails err, fd1)
      | (Panics p, fd1) \<Rightarrow> (Panics p, fd1))"

definition load ::
  "'d codec \<Rightarrow> byte list option \<Rightarrow> globals \<Rightarrow> int64
     \<Rightarrow> 'd comparableRow list result \<times> byte list \<times> globals" where
  "load c file g ratio =
     (case file of
        None \<Rightarrow> (Fails (New ''data file (data.out) does not exist''), [], g)
      | Some bytes \<Rightarrow>
          (case decodeMeta bytes g of
             (Some err, fd1, g1) \<Rightarrow> (Fails err, fd1, g1)
           | (None, fd1, g1) \<Rightarrow>
               (case makeslice 8 0 (scale g1) of
                  Some p \<Rightarrow> (Panics p, fd1, g1)
                | None \<Rightarrow>
                   (case load_rows c g1 (nat (sint (totalRows (scale g1) ratio))) fd1 [] of
                      (res, fd2) \<Rightarrow> (res, fd2, g1)))))"

subsection \<open>The scalar codec of the specification\<close>

text \<open>
  Modelled from the spec: the packages \<^verbatim>\<open>util/types\<close> (\<^verbatim>\<open>Datum\<close>, \<^verbatim>\<open>NewDatum\<close>,
  \<^verbatim>\<open>NewIntDatum\<close>, \<^verbatim>\<open>GetInt64\<close>) and \<^verbatim>\<open>util/codec\<close> (\<^verbatim>\<open>EncodeKey\<close>, \<^verbatim>\<open>Decode\<close>) are
  not among the sources. A typed value is a tagged scalar: a signed integer, an unsigned
  integer, or a value of a kind the encoding cannot represent.
\<close>

datatype Datum = IntDatum int64 | UintDatum uint64 | OtherDatum

text \<open>
  Modelled from the spec: the self-describing ordered encoding of \<^verbatim>\<open>util/codec\<close>.
  Each scalar is a tag byte and a payload of eight big-endian bytes; the payload of a
  signed integer has its sign bit flipped, which makes the byte order the numeric order.
  \<open>intFlag\<close> is the tag of a signed integer.
\<close>

definition intFlag :: byte where "intFlag = 3"

text \<open>Modelled from the spec: the tag of an unsigned integer in \<^verbatim>\<open>util/codec\<close>.\<close>

definition uintFlag :: byte where "uintFlag = 4"

text \<open>Modelled from the spec: the sign bit that \<^verbatim>\<open>util/codec\<close> flips in a signed payload.\<close>

definition signMask :: uint64 where "signMask = 0x8000000000000000"

text \<open>
  Modelled from the spec: \<^verbatim>\<open>codec.EncodeKey\<close> appends the encoding of each scalar to the
  buffer, and returns an error and no buffer when a scalar cannot be represented.
\<close>

fun encode :: "byte list \<Rightarrow> Datum list \<Rightarrow> byte list \<times> error option" where
  "encode b [] = (b, None)"
| "encode b (IntDatum v # ds) = encode (b @ intFlag # PutUint64 (v XOR signMask)) ds"
| "encode b (UintDatum u # ds) = encode (b @ uintFlag # PutUint64 u) ds"
| "encode b (OtherDatum # ds) = ([], Some (New ''unsupport encode type''))"

text \<open>
  Modelled from the spec: \<^verbatim>\<open>codec.Decode\<close> decodes the payload into exactly \<open>n\<close>
  scalars, and fails on an unreadable tag, a payload that ends inside a scalar, or a
  different number of scalars. \<open>decodeAll\<close> decodes the scalars of a payload, one after
  the other, until the payload ends.
\<close>

fun decodeAll :: "byte list \<Rightarrow> Datum list option" where
  "decodeAll [] = Some []"
| "decodeAll (t # b0 # b1 # b2 # b3 # b4 # b5 # b6 # b7 # rest) =
     (if t = intFlag
      then map_option ((#) (IntDatum (Uint64 [b0, b1, b2, b3, b4, b5, b6, b7] XOR signMask)))
             (decodeAll rest)
      else if t = uintFlag
      then map_option ((#) (UintDatum (Uint64 [b0, b1, b2, b3, b4, b5, b6, b7])))
             (decodeAll rest)
      else None)"
| "decodeAll _ = None"

text \<open>
  Modelled from the spec: \<^verbatim>\<open>codec.Decode\<close> itself, \<open>decodeAll\<close> followed by the check of the
  number of scalars against its second argument.
\<close>

definition decode :: "byte list \<Rightarrow> int64 \<Rightarrow> Datum list \<times> error option" where
  "decode b n =
     (case decodeAll b of
        None \<Rightarrow> ([], Some (New ''invalid encoded key''))
      | Some ds \<Rightarrow>
          (if int (length ds) = sint n then (ds, None)
           else ([], Some (New ''invalid encoded key''))))"

text \<open>
  Modelled from the spec: \<^verbatim>\<open>Datum.GetInt64\<close> of \<^verbatim>\<open>util/types\<close>, the scalar read as a signed
  integer.
\<close>

definition asInt64 :: "Datum \<Rightarrow> int64" where
  "asInt64 d = (case d of IntDatum v \<Rightarrow> v | UintDatum u \<Rightarrow> u | OtherDatum \<Rightarrow> 0)"

text \<open>
  Modelled from the spec: the functions of \<^verbatim>\<open>util/codec\<close> and \<^verbatim>\<open>util/types\<close> that the
  row functions call; \<^verbatim>\<open>types.NewDatum\<close> of an \<^verbatim>\<open>int\<close> and \<^verbatim>\<open>types.NewIntDatum\<close> both make
  a signed integer scalar. The spec gives no size of a scalar in memory: 56 bytes hold a
  kind, three small lengths, a 64-bit integer, a byte slice and an interface value.
\<close>

definition spec_codec :: "Datum codec" where
  "spec_codec = \<lparr>EncodeKey = encode, Decode = decode, NewDatum = IntDatum,
                  NewIntDatum = IntDatum, GetInt64 = asInt64, DatumSize = 56\<rparr>"

subsection \<open>Dataset files\<close>

text \<open>
  \<open>dataFile c g rows\<close> is the buffer that the loop of \<open>export\<close> builds from the header and
  the rows \<open>rows\<close> (lemma \<open>export_dataFile\<close>). A dataset file is well formed when the three
  header fields are positive, it holds \<open>scale\<close> records, and every row has \<open>keySize\<close> key
  scalars and \<open>valSize\<close> value scalars, is encoded without error, and is a row in memory:
  \<open>decodeRow\<close> returns a row as one slice of \<open>keySize + valSize + 1\<close> scalars, which is at
  most \<open>maxAlloc\<close> bytes. \<open>nextRows c rnd g n r\<close> lists the rows that the first \<open>n\<close> calls of
  \<open>nextRow\<close> in \<open>export\<close> return, and \<open>rowCount\<close> is \<^verbatim>\<open>len(data)\<close> for the slice that \<open>load\<close>
  returns (\<^verbatim>\<open>nil\<close> where it fails; a run that panics returns no rows).
\<close>

definition dataFile :: "'d codec \<Rightarrow> globals \<Rightarrow> 'd comparableRow list \<Rightarrow> byte list" where
  "dataFile c g rows =
     foldl (\<lambda>b row. fst (encodeRow c b row))
       (encodeMeta [] (scale g) (keySize g) (valSize g)) rows"

definition wellFormed :: "'d codec \<Rightarrow> globals \<Rightarrow> 'd comparableRow list \<Rightarrow> bool" where
  "wellFormed c g rows \<longleftrightarrow>
     0 < sint (scale g) \<and> 0 < sint (keySize g) \<and> 0 < sint (valSize g) \<and>
     int (length rows) = sint (scale g) \<and>
     (\<forall>row \<in> set rows.
        int (length (key row)) = sint (keySize g) \<and>
        int (length (val row)) = sint (valSize g) \<and>
        snd (encodeRow c [] row) = None \<and>
        DatumSize c * (length (key row) + length (val row) + 1) \<le> maxAlloc)"

fun nextRows :: "'d codec \<Rightarrow> 'r rand \<Rightarrow> globals \<Rightarrow> nat \<Rightarrow> 'r \<Rightarrow> 'd comparableRow list" where
  "nextRows c rnd g 0 r = []"
| "nextRows c rnd g (Suc n) r =
     (case nextRow c rnd r (keySize g) (valSize g) of
        (Returns row, r1) \<Rightarrow> row # nextRows c rnd g n r1
      | (Fails e, r1) \<Rightarrow> []
      | (Panics p, r1) \<Rightarrow> [])"

definition rowCount :: "'a list result \<Rightarrow> nat" where
  "rowCount res = (case res of Returns data \<Rightarrow> length data | Fails e \<Rightarrow> 0 | Panics p \<Rightarrow> 0)"

section \<open>Machine integers\<close>

lemma sint_word_of_int64:
  "- (2 ^ 63) \<le> k \<Longrightarrow> k < 2 ^ 63 \<Longrightarrow> sint (word_of_int k :: int64) = k"
  by (simp add: signed_of_int signed_take_bit_int_eq_self)

lemma sint_nonneg_unat:
  assumes "0 \<le> sint (w :: int64)"
  shows "int (unat w) = sint w"
proof -
  have "sint w < 2 ^ 64"
    using sint_lt [of w] by simp
  then have "take_bit 64 (sint w) = sint w"
    using assms by (simp add: take_bit_int_eq_self)
  then have "uint w = sint w"
    using uint_sint [of w] by simp
  then show ?thesis by simp
qed

lemma sint_add:
  "- (2 ^ 63) \<le> sint a + sint b \<Longrightarrow> sint a + sint b < 2 ^ 63 \<Longrightarrow>
   sint (a + b :: int64) = sint a + sint b"
  by (simp add: sint_word_add signed_take_bit_int_eq_self)

lemma sint_word_of_nat64: "n < 2 ^ 63 \<Longrightarrow> sint (word_of_nat n :: int64) = int n"
  using sint_word_of_int64 [of "int n"] by simp

lemma unat_word_of_nat64: "n < 2 ^ 63 \<Longrightarrow> unat (word_of_nat n :: int64) = n"
  by (simp add: unat_of_nat)

lemma sint_1: "sint (1 :: int64) = 1" by simp

lemma makeslice_None:
  assumes "0 \<le> sint n" and "sint n \<le> sint m" and "elem * nat (sint m) \<le> maxAlloc"
  shows "makeslice elem n m = None"
proof -
  have "nat (sint n) \<le> nat (sint m)"
    using assms(1,2) by simp
  then have "elem * nat (sint n) \<le> elem * nat (sint m)"
    by (rule mult_le_mono2)
  with assms(3) have "elem * nat (sint n) \<le> maxAlloc"
    by linarith
  with assms show ?thesis by (simp add: makeslice_def not_less)
qed

lemma makeslice_capacity:
  "makeslice elem 0 m =
     (if sint m < 0 \<or> maxAlloc < elem * nat (sint m)
      then Some ''makeslice: cap out of range'' else None)"
  by (simp add: makeslice_def)

lemma makeslice_length:
  "makeslice elem n n =
     (if sint n < 0 \<or> maxAlloc < elem * nat (sint n)
      then Some ''makeslice: len out of range'' else None)"
  by (simp add: makeslice_def)

section \<open>Big-endian values and reads\<close>

lemma bit_byte_at:
  "k + 8 \<le> 64 \<Longrightarrow>
   bit (push_bit k (ucast (ucast (drop_bit k v) :: byte)) :: uint64) n
     = (k \<le> n \<and> n < k + 8 \<and> bit (v :: uint64) n)"
  by (auto simp add: bit_simps)

lemma bit_byte_low:
  "bit (ucast (ucast v :: byte) :: uint64) n = (n < 8 \<and> bit (v :: uint64) n)"
  by (auto simp add: bit_simps)

lemma Uint64_bytes:
  "Uint64 [ucast (drop_bit 56 v), ucast (drop_bit 48 v), ucast (drop_bit 40 v),
           ucast (drop_bit 32 v), ucast (drop_bit 24 v), ucast (drop_bit 16 v),
           ucast (drop_bit 8 v), ucast v] = v"
proof (rule bit_word_eqI)
  fix n assume "n < LENGTH(64)"
  then have n: "n < 64" by simp
  have "bit (Uint64 [ucast (drop_bit 56 v), ucast (drop_bit 48 v), ucast (drop_bit 40 v),
           ucast (drop_bit 32 v), ucast (drop_bit 24 v), ucast (drop_bit 16 v),
           ucast (drop_bit 8 v), ucast v]) n =
     ((n < 8 \<or> (8 \<le> n \<and> n < 16) \<or> (16 \<le> n \<and> n < 24) \<or> (24 \<le> n \<and> n < 32) \<or>
       (32 \<le> n \<and> n < 40) \<or> (40 \<le> n \<and> n < 48) \<or> (48 \<le> n \<and> n < 56) \<or>
       (56 \<le> n \<and> n < 64)) \<and> bit v n)"
    unfolding Uint64_def
    by (simp add: bit_or_iff bit_byte_at bit_byte_low) blast
  also have "\<dots> = bit v n"
    using n by (simp add: not_less [symmetric]) blast
  finally show "bit (Uint64 [ucast (drop_bit 56 v), ucast (drop_bit 48 v), ucast (drop_bit 40 v),
           ucast (drop_bit 32 v), ucast (drop_bit 24 v), ucast (drop_bit 16 v),
           ucast (drop_bit 8 v), ucast v]) n = bit v n" .
qed

lemma Uint64_PutUint64 [simp]: "Uint64 (PutUint64 v) = v"
  by (simp add: PutUint64_def Uint64_bytes)

lemma length_PutUint64 [simp]: "length (PutUint64 v) = 8"
  by (simp add: PutUint64_def)

lemma Read_exact: "length h = n \<Longrightarrow> Read n (h @ rest) = ((h, n, None), rest)"
  by (auto simp add: Read_def Let_def)

lemma Read_short:
  "length fd < n \<Longrightarrow> Read n fd =
     ((fd @ replicate (n - length fd) 0, length fd, if fd = [] then Some EOF else None), [])"
  by (auto simp add: Read_def min_def Let_def)

section \<open>The header\<close>

lemma length_encodeMeta: "length (encodeMeta b sc ks vs) = length b + 24"
  by (simp add: encodeMeta_def)

lemma encodeMeta_fields:
  "take 8 (encodeMeta [] sc ks vs) = PutUint64 sc"
  "take 8 (drop 8 (encodeMeta [] sc ks vs)) = PutUint64 ks"
  "drop 16 (encodeMeta [] sc ks vs) = PutUint64 vs"
  by (simp_all add: encodeMeta_def)

lemma decodeMeta_fields:
  assumes "length h = 24"
  shows "decodeMeta (h @ rest) g =
     (if sint (Uint64 (take 8 h)) \<le> 0
      then (Some (New ''number of rows must be positive''), rest, g\<lparr>scale := Uint64 (take 8 h)\<rparr>)
      else if sint (Uint64 (take 8 (drop 8 h))) \<le> 0
      then (Some (New ''key size must be positive''), rest,
            g\<lparr>scale := Uint64 (take 8 h), keySize := Uint64 (take 8 (drop 8 h))\<rparr>)
      else if sint (Uint64 (drop 16 h)) \<le> 0
      then (Some (New ''value size must be positive''), rest,
            g\<lparr>scale := Uint64 (take 8 h), keySize := Uint64 (take 8 (drop 8 h)),
              valSize := Uint64 (drop 16 h)\<rparr>)
      else (None, rest,
            g\<lparr>scale := Uint64 (take 8 h), keySize := Uint64 (take 8 (drop 8 h)),
              valSize := Uint64 (drop 16 h)\<rparr>))"
  by (simp add: decodeMeta_def Read_exact [OF assms] Let_def)

lemma decodeMeta_encodeMeta:
  assumes "0 < sint sc" and "0 < sint ks" and "0 < sint vs"
  shows "decodeMeta (encodeMeta [] sc ks vs @ rest) g =
           (None, rest, \<lparr>scale = sc, keySize = ks, valSize = vs\<rparr>)"
  using assms
  by (simp add: decodeMeta_fields length_encodeMeta encodeMeta_fields)

text \<open>
  C3: for strictly positive \<open>scale\<close>, \<open>keySize\<close> and \<open>valSize\<close>, \<open>encodeMeta\<close> writes 24
  bytes, and \<open>decodeMeta\<close> on a file that starts with them sets the three globals to the
  original values, returns no error and leaves the file just after the header.
\<close>

theorem header_roundtrip:
  assumes "0 < sint sc" and "0 < sint ks" and "0 < sint vs"
  shows "length (encodeMeta [] sc ks vs) = 24 \<and>
         decodeMeta (encodeMeta [] sc ks vs @ rest) g =
           (None, rest, \<lparr>scale = sc, keySize = ks, valSize = vs\<rparr>)"
  using assms
  by (simp add: decodeMeta_fields length_encodeMeta encodeMeta_fields)

theorem header_roundtrip_witness:
  "0 < sint (10 :: int64) \<and> 0 < sint (2 :: int64) \<and> 0 < sint (1 :: int64) \<and>
   length (encodeMeta [] 10 2 1) = 24 \<and>
   decodeMeta (encodeMeta [] 10 2 1 @ [7]) \<lparr>scale = 0, keySize = 0, valSize = 0\<rparr> =
     (None, [7], \<lparr>scale = 10, keySize = 2, valSize = 1\<rparr>)"
  using header_roundtrip [of 10 2 1 "[7]" "\<lparr>scale = 0, keySize = 0, valSize = 0\<rparr>"]
  by simp

text \<open>
  C5: on a file that starts with 24 header bytes, \<open>decodeMeta\<close> reads the three fields in
  the order scale, keySize, valSize and fails at the first one that is not positive, with
  the error that names it; \<open>load\<close> then fails with the same error for every codec and
  every ratio, and the file is left just after the header, so no record has been read.
  When the three fields are positive \<open>decodeMeta\<close> returns no error and the globals hold
  the three fields.
\<close>

theorem header_validation:
  assumes "length h = 24"
  shows "let sc = Uint64 (take 8 h); ks = Uint64 (take 8 (drop 8 h)); vs = Uint64 (drop 16 h)
         in (sint sc \<le> 0 \<longrightarrow>
               decodeMeta (h @ rest) g =
                 (Some (New ''number of rows must be positive''), rest, g\<lparr>scale := sc\<rparr>) \<and>
               load c (Some (h @ rest)) g ratio =
                 (Fails (New ''number of rows must be positive''), rest, g\<lparr>scale := sc\<rparr>)) \<and>
            (0 < sint sc \<and> sint ks \<le> 0 \<longrightarrow>
               decodeMeta (h @ rest) g =
                 (Some (New ''key size must be positive''), rest,
                  g\<lparr>scale := sc, keySize := ks\<rparr>) \<and>
               load c (Some (h @ rest)) g ratio =
                 (Fails (New ''key size must be positive''), rest,
                  g\<lparr>scale := sc, keySize := ks\<rparr>)) \<and>
            (0 < sint sc \<and> 0 < sint ks \<and> sint vs \<le> 0 \<longrightarrow>
               decodeMeta (h @ rest) g =
                 (Some (New ''value size must be positive''), rest,
                  \<lparr>scale = sc, keySize = ks, valSize = vs\<rparr>) \<and>
               load c (Some (h @ rest)) g ratio =
                 (Fails (New ''value size must be positive''), rest,
                  \<lparr>scale = sc, keySize = ks, valSize = vs\<rparr>)) \<and>
            (0 < sint sc \<and> 0 < sint ks \<and> 0 < sint vs \<longrightarrow>
               decodeMeta (h @ rest) g =
                 (None, rest, \<lparr>scale = sc, keySize = ks, valSize = vs\<rparr>))"
  by (simp add: Let_def load_def decodeMeta_fields [OF assms])

theorem header_validation_witness:
  "length (encodeMeta [] 0 2 1) = 24 \<and>
   load spec_codec (Some (encodeMeta [] 0 2 1 @ [7])) \<lparr>scale = 5, keySize = 5, valSize = 5\<rparr> 50 =
     (Fails (New ''number of rows must be positive''), [7],
      \<lparr>scale = 0, keySize = 5, valSize = 5\<rparr>) \<and>
   load spec_codec (Some (encodeMeta [] 10 (- 1) 1 @ [7])) \<lparr>scale = 5, keySize = 5, valSize = 5\<rparr> 50 =
     (Fails (New ''key size must be positive''), [7],
      \<lparr>scale = 10, keySize = - 1, valSize = 5\<rparr>) \<and>
   load spec_codec (Some (encodeMeta [] 10 2 0 @ [7])) \<lparr>scale = 5, keySize = 5, valSize = 5\<rparr> 50 =
     (Fails (New ''value size must be positive''), [7],
      \<lparr>scale = 10, keySize = 2, valSize = 0\<rparr>) \<and>
   decodeMeta (encodeMeta [] 10 2 1 @ [7]) \<lparr>scale = 5, keySize = 5, valSize = 5\<rparr> =
     (None, [7], \<lparr>scale = 10, keySize = 2, valSize = 1\<rparr>)"
  using
    header_validation [of "encodeMeta [] 0 2 1" "[7]"
      "\<lparr>scale = 5, keySize = 5, valSize = 5\<rparr>" spec_codec 50]
    header_validation [of "encodeMeta [] 10 (- 1) 1" "[7]"
      "\<lparr>scale = 5, keySize = 5, valSize = 5\<rparr>" spec_codec 50]
    header_validation [of "encodeMeta [] 10 2 0" "[7]"
      "\<lparr>scale = 5, keySize = 5, valSize = 5\<rparr>" spec_codec 50]
    header_validation [of "encodeMeta [] 10 2 1" "[7]"
      "\<lparr>scale = 5, keySize = 5, valSize = 5\<rparr>"]
  by (simp add: Let_def length_encodeMeta encodeMeta_fields)

section \<open>The row encoder on its error path\<close>

text \<open>
  C10: for every codec, every buffer \<open>b\<close> and every row, when \<open>encodeRow\<close> returns an error
  the buffer it returns is \<open>b\<close>: neither a length header nor a part of the payload has
  been appended.
\<close>

theorem encodeRow_error_keeps_buffer:
  "snd (encodeRow c b row) \<noteq> None \<Longrightarrow> fst (encodeRow c b row) = b"
  by (auto simp add: encodeRow_def split: prod.splits option.splits)

theorem encodeRow_error_keeps_buffer_witness:
  "snd (encodeRow spec_codec [1, 2] \<lparr>key = [IntDatum 5], val = [OtherDatum], handle = 9\<rparr>) \<noteq> None \<and>
   fst (encodeRow spec_codec [1, 2] \<lparr>key = [IntDatum 5], val = [OtherDatum], handle = 9\<rparr>) = [1, 2]"
proof -
  have "snd (encodeRow spec_codec [1, 2] \<lparr>key = [IntDatum 5], val = [OtherDatum], handle = 9\<rparr>) \<noteq> None"
    by (simp add: encodeRow_def spec_codec_def)
  then show ?thesis
    using encodeRow_error_keeps_buffer [of spec_codec "[1, 2]"
        "\<lparr>key = [IntDatum 5], val = [OtherDatum], handle = 9\<rparr>"]
    by simp
qed

section \<open>Short reads in the row decoder\<close>

lemma decodeRow_short_header:
  assumes "makeslice (DatumSize c) 0 (keySize g + valSize g + 1) = None" and "length fd < 8"
  shows "decodeRow c g fd = (Fails (New ''incorrect header''), [])"
  using assms by (simp add: decodeRow_def Read_short)

lemma decodeRow_short_row:
  assumes "makeslice (DatumSize c) 0 (keySize g + valSize g + 1) = None" and "length h = 8"
    and "makeslice 1 (Uint64 h) (Uint64 h) = None" and "length rest < unat (Uint64 h)"
  shows "decodeRow c g (h @ rest) = (Fails (New ''incorrect row''), [])"
  using assms by (simp add: decodeRow_def decodeBody_def Read_exact Read_short)

lemma decodeRow_length_panics:
  assumes "makeslice (DatumSize c) 0 (keySize g + valSize g + 1) = None" and "length h = 8"
    and "makeslice 1 (Uint64 h) (Uint64 h) = Some p"
  shows "decodeRow c g (h @ rest) = (Panics p, rest)"
  using assms by (simp add: decodeRow_def Read_exact)

lemma decodeRow_capacity_panics:
  assumes "makeslice (DatumSize c) 0 (keySize g + valSize g + 1) = Some p"
  shows "decodeRow c g fd = (Panics p, fd)"
  using assms by (simp add: decodeRow_def)

lemma Uint64_ff: "Uint64 [255, 255, 255, 255, 255, 255, 255, 255] = - 1"
  by (simp add: Uint64_def)

text \<open>
  C4: a length prefix of eight bytes \<open>0xFF\<close> is the length \<open>2 ^ 64 - 1\<close>, and fewer bytes
  than that follow it. \<open>decodeRow\<close> converts the length to the \<^verbatim>\<open>int\<close> \<open>- 1\<close> and panics in
  \<^verbatim>\<open>make([]byte, rowSize)\<close>; it does not return the error \<^verbatim>\<open>incorrect row\<close>. By
  \<open>decodeRow_length_panics\<close> the same holds for every length above \<open>maxAlloc\<close>.
\<close>

theorem decodeRow_negative_length_panics:
  "decodeRow spec_codec \<lparr>scale = 1, keySize = 1, valSize = 1\<rparr>
     [255, 255, 255, 255, 255, 255, 255, 255, 3, 128, 0, 0, 0, 0, 0, 0, 1] =
   (Panics ''makeslice: len out of range'', [3, 128, 0, 0, 0, 0, 0, 0, 1])"
  by (simp add: decodeRow_def Read_def Uint64_ff makeslice_def maxAlloc_def spec_codec_def)

section \<open>The scalar codec\<close>

lemma encode_append_buffer:
  "OtherDatum \<notin> set ds \<Longrightarrow> encode b ds = (b @ fst (encode [] ds), None)"
proof (induction ds arbitrary: b)
  case Nil
  then show ?case by simp
next
  case (Cons d ds)
  then have ok: "OtherDatum \<notin> set ds" by simp
  show ?case
  proof (cases d)
    case (IntDatum v)
    then show ?thesis
      using Cons.IH [OF ok, of "b @ intFlag # PutUint64 (v XOR signMask)"]
        Cons.IH [OF ok, of "intFlag # PutUint64 (v XOR signMask)"]
      by simp
  next
    case (UintDatum u)
    then show ?thesis
      using Cons.IH [OF ok, of "b @ uintFlag # PutUint64 u"]
        Cons.IH [OF ok, of "uintFlag # PutUint64 u"]
      by simp
  next
    case OtherDatum
    with Cons.prems show ?thesis by simp
  qed
qed

lemma encode_fails: "OtherDatum \<in> set ds \<Longrightarrow> snd (encode b ds) \<noteq> None"
  by (induction b ds rule: encode.induct) auto

lemma encode_None_iff: "snd (encode b ds) = None \<longleftrightarrow> OtherDatum \<notin> set ds"
  using encode_fails [of ds b] encode_append_buffer [of ds b] by auto

lemma encode_append_list:
  assumes "OtherDatum \<notin> set xs" and "OtherDatum \<notin> set ys"
  shows "fst (encode [] (xs @ ys)) = fst (encode [] xs) @ fst (encode [] ys)"
  using assms
proof (induction xs)
  case Nil
  then show ?case by simp
next
  case (Cons d xs)
  then have "OtherDatum \<notin> set xs" and "OtherDatum \<notin> set (xs @ ys)" by simp_all
  then show ?case
    using Cons
      encode_append_buffer [of "xs @ ys" "intFlag # PutUint64 (v XOR signMask)" for v]
      encode_append_buffer [of "xs @ ys" "uintFlag # PutUint64 u" for u]
      encode_append_buffer [of xs "intFlag # PutUint64 (v XOR signMask)" for v]
      encode_append_buffer [of xs "uintFlag # PutUint64 u" for u]
    by (cases d) simp_all
qed

lemma length_encode: "OtherDatum \<notin> set ds \<Longrightarrow> length (fst (encode [] ds)) = 9 * length ds"
proof (induction ds)
  case Nil
  then show ?case by simp
next
  case (Cons d ds)
  then show ?case
    using encode_append_buffer [of ds "intFlag # PutUint64 (v XOR signMask)" for v]
      encode_append_buffer [of ds "uintFlag # PutUint64 u" for u]
    by (cases d) simp_all
qed

lemma decodeAll_int:
  "decodeAll (intFlag # PutUint64 w @ rest) =
     map_option ((#) (IntDatum (w XOR signMask))) (decodeAll rest)"
  by (simp add: PutUint64_def Uint64_bytes)

lemma decodeAll_uint:
  "decodeAll (uintFlag # PutUint64 w @ rest) =
     map_option ((#) (UintDatum w)) (decodeAll rest)"
  by (simp add: PutUint64_def Uint64_bytes intFlag_def uintFlag_def)

lemma decodeAll_encode: "OtherDatum \<notin> set ds \<Longrightarrow> decodeAll (fst (encode [] ds)) = Some ds"
proof (induction ds)
  case Nil
  then show ?case by simp
next
  case (Cons d ds)
  then show ?case
    using encode_append_buffer [of ds "intFlag # PutUint64 (v XOR signMask)" for v]
      encode_append_buffer [of ds "uintFlag # PutUint64 u" for u]
    by (cases d) (simp_all add: decodeAll_int decodeAll_uint xor.assoc)
qed


lemma encodeRow_spec_codec:
  assumes "encodeRow spec_codec b row = (out, None)"
  shows "OtherDatum \<notin> set (key row) \<and> OtherDatum \<notin> set (val row) \<and>
         out = b @ PutUint64 (word_of_nat (9 * (length (key row) + length (val row) + 1))) @
                 fst (encode [] (key row @ val row @ [IntDatum (handle row)]))"
proof -
  define kb where "kb = fst (encode [] (key row))"
  define vb where "vb = fst (encode [] (val row))"
  define body where "body = fst (encode [] (key row @ val row @ [IntDatum (handle row)]))"
  have k: "OtherDatum \<notin> set (key row)"
  proof
    assume "OtherDatum \<in> set (key row)"
    then have "snd (encode [] (key row)) \<noteq> None" by (rule encode_fails)
    with assms show False
      by (auto simp add: encodeRow_def spec_codec_def split: prod.splits option.splits)
  qed
  then have ek: "encode [] (key row) = (kb, None)"
    using encode_append_buffer [of "key row" "[]"] by (simp add: kb_def)
  have v: "OtherDatum \<notin> set (val row)"
  proof
    assume "OtherDatum \<in> set (val row)"
    then have "snd (encode kb (val row)) \<noteq> None" by (rule encode_fails)
    with assms ek show False
      by (auto simp add: encodeRow_def spec_codec_def split: prod.splits option.splits)
  qed
  have all: "OtherDatum \<notin> set (key row @ val row @ [IntDatum (handle row)])"
    using k v by simp
  have ev: "encode kb (val row) = (kb @ vb, None)"
    unfolding vb_def by (rule encode_append_buffer [OF v])
  have "body = kb @ vb @ fst (encode [] [IntDatum (handle row)])"
    using k v by (simp add: body_def kb_def vb_def encode_append_list)
  then have eh: "encode (kb @ vb) [IntDatum (handle row)] = (body, None)"
    using encode_append_buffer [of "[IntDatum (handle row)]" "kb @ vb"] by simp
  have lb: "length body = 9 * (length (key row) + length (val row) + 1)"
    using length_encode [OF all] by (simp add: body_def)
  from assms ek ev eh have "out = b @ PutUint64 (word_of_nat (length body)) @ body"
    by (simp add: encodeRow_def spec_codec_def del: encode.simps)
  then have "out = b @
      PutUint64 (word_of_nat (9 * (length (key row) + length (val row) + 1))) @ body"
    by (simp only: lb)
  with k v show ?thesis by (simp add: body_def)
qed

lemma decodeRow_encodeRow:
  assumes K: "0 < sint (keySize g)" and V: "0 < sint (valSize g)"
    and lk: "int (length (key row)) = sint (keySize g)"
    and lv: "int (length (val row)) = sint (valSize g)"
    and enc: "encodeRow spec_codec b row = (out, None)"
    and mem: "DatumSize spec_codec * (length (key row) + length (val row) + 1) \<le> maxAlloc"
  shows "decodeRow spec_codec g (drop (length b) out @ rest) = (Returns row, rest)"
proof -
  define n where "n = length (key row) + length (val row) + 1"
  define ds where "ds = key row @ val row @ [IntDatum (handle row)]"
  define body where "body = fst (encode [] ds)"
  from encodeRow_spec_codec [OF enc]
  have ok: "OtherDatum \<notin> set ds" and out: "out = b @ PutUint64 (word_of_nat (9 * n)) @ body"
    by (simp_all add: ds_def body_def n_def)
  have lbody: "length body = 9 * n"
    using length_encode [OF ok] by (simp add: body_def ds_def n_def)
  have lds: "length ds = n" by (simp add: ds_def n_def)
  from mem have n56: "56 * n \<le> 2 ^ 48"
    by (simp add: spec_codec_def maxAlloc_def n_def)
  then have n9: "9 * n < 2 ^ 63" by simp
  then have nlt: "int n < 2 ^ 63" by simp
  have kv: "sint (keySize g + valSize g) = int (length (key row) + length (val row))"
    using lk lv nlt K V by (simp add: sint_add n_def)
  have kv1: "sint (keySize g + valSize g + 1) = int n"
    using kv nlt sint_add [of "keySize g + valSize g" 1] by (simp add: n_def)
  have uk: "unat (keySize g) = length (key row)"
    using sint_nonneg_unat [of "keySize g"] K lk by linarith
  have ukv: "unat (keySize g + valSize g) = length (key row) + length (val row)"
    using sint_nonneg_unat [of "keySize g + valSize g"] kv by linarith
  have rs: "sint (word_of_nat (9 * n) :: int64) = int (9 * n)"
    using n9 by (rule sint_word_of_nat64)
  have ru: "unat (word_of_nat (9 * n) :: int64) = 9 * n"
    using n9 by (rule unat_word_of_nat64)
  have dec: "decode body (keySize g + valSize g + 1) = (ds, None)"
    using decodeAll_encode [OF ok] by (simp add: decode_def body_def lds kv1)
  have body: "decodeBody spec_codec g (9 * n) (body @ rest) = (Returns row, rest)"
    using dec kv K lk ukv uk
    by (simp add: decodeBody_def Read_exact [OF lbody] spec_codec_def Let_def ds_def
        nth_append asInt64_def)
  have mk1: "makeslice (DatumSize spec_codec) 0 (keySize g + valSize g + 1) = None"
    using kv1 n56 by (simp add: makeslice_capacity maxAlloc_def spec_codec_def)
  have mk2: "makeslice 1 (word_of_nat (9 * n)) (word_of_nat (9 * n) :: int64) = None"
    using rs n56 by (simp add: makeslice_length maxAlloc_def)
  have "drop (length b) out @ rest = PutUint64 (word_of_nat (9 * n)) @ (body @ rest)"
    by (simp add: out)
  then show ?thesis
    using mk1 mk2 ru body
    by (simp add: decodeRow_def Read_exact Let_def)
qed


section \<open>The row round trip\<close>



section \<open>Rounding to \<^verbatim>\<open>float64\<close>\<close>



lemma two_powi_add: "(2::rat) powi (a + b) = 2 powi a * 2 powi b"
  by (simp add: power_int_add)

lemma two_powi_less: "a < b \<Longrightarrow> (2::rat) powi a < 2 powi b"
  by (rule power_int_strict_increasing) simp_all

lemma two_powi_le: "a \<le> b \<Longrightarrow> (2::rat) powi a \<le> 2 powi b"
  by (rule power_int_increasing) simp_all

lemma two_powi_less_cancel: "(2::rat) powi a < 2 powi b \<Longrightarrow> a < b"
  using two_powi_le [of b a] by (cases "a < b") simp_all

lemma bitlen_rat_bounds:
  assumes "0 < a"
  shows "(2::rat) powi (bitlen a - 1) \<le> of_int a" and "of_int a < (2::rat) powi bitlen a"
proof -
  have ge1: "1 \<le> bitlen a"
    using assms bitlen_eq_zero_iff [of a] bitlen_nonneg [of a] by linarith
  from bitlen_bounds [OF assms]
  have lo: "2 ^ nat (bitlen a - 1) \<le> a" and hi: "a < 2 ^ nat (bitlen a)" by simp_all
  have "(of_int (2 ^ nat (bitlen a - 1)) :: rat) \<le> of_int a"
    using lo by (simp only: of_int_le_iff)
  then show "(2::rat) powi (bitlen a - 1) \<le> of_int a"
    using ge1 by (simp add: power_int_nonneg_exp)
  have "(of_int a :: rat) < of_int (2 ^ nat (bitlen a))"
    using hi by (simp only: of_int_less_iff)
  then show "of_int a < (2::rat) powi bitlen a"
    using ge1 by (simp add: power_int_nonneg_exp)
qed

lemma ilog2_bounds:
  assumes "0 < q"
  shows "2 powi ilog2 q \<le> q" and "q < 2 powi (ilog2 q + 1)"
proof -
  obtain a b where ab: "quotient_of q = (a, b)" by (cases "quotient_of q")
  then have b: "0 < b" by (rule quotient_of_denom_pos)
  have q: "q = of_int a / of_int b" using ab by (rule quotient_of_div)
  have a: "0 < a"
    using assms b by (simp add: q zero_less_divide_iff)
  define e where "e = bitlen a - bitlen b"
  have il: "ilog2 q = (if 2 powi e \<le> q then e else e - 1)"
    by (simp add: ilog2_def ab e_def Let_def)
  note A = bitlen_rat_bounds [OF a] and B = bitlen_rat_bounds [OF b]
  have bpos: "(0::rat) < of_int b" using b by simp
  have "2 powi (e - 1) * of_int b < (2::rat) powi (e - 1) * 2 powi bitlen b"
    using B(2) by simp
  also have "\<dots> = 2 powi (bitlen a - 1)"
    by (simp add: e_def flip: two_powi_add)
  also have "\<dots> \<le> of_int a" by (rule A(1))
  finally have lo: "2 powi (e - 1) < q"
    using bpos by (simp add: q pos_less_divide_eq)
  have "(of_int a :: rat) < 2 powi bitlen a" by (rule A(2))
  also have "\<dots> = 2 powi (e + 1) * 2 powi (bitlen b - 1)"
    by (simp add: e_def flip: two_powi_add)
  also have "\<dots> \<le> 2 powi (e + 1) * of_int b"
    using B(1) by simp
  finally have hi: "q < 2 powi (e + 1)"
    using bpos by (simp add: q pos_divide_less_eq)
  show "2 powi ilog2 q \<le> q"
    using lo by (simp add: il)
  show "q < 2 powi (ilog2 q + 1)"
    using hi by (simp add: il not_le)
qed

lemma ilog2_unique:
  assumes "0 < q" and "2 powi e \<le> q" and "q < 2 powi (e + 1)"
  shows "ilog2 q = e"
proof -
  have "(2::rat) powi ilog2 q < 2 powi (e + 1)"
    using ilog2_bounds(1) [OF assms(1)] assms(3) by simp
  then have "ilog2 q < e + 1" by (rule two_powi_less_cancel)
  moreover have "(2::rat) powi e < 2 powi (ilog2 q + 1)"
    using ilog2_bounds(2) [OF assms(1)] assms(2) by simp
  then have "e < ilog2 q + 1" by (rule two_powi_less_cancel)
  ultimately show ?thesis by simp
qed

lemma round_half_even_of_int [simp]: "round_half_even (of_int n) = n"
  by (simp add: round_half_even_def)

lemma round_half_even_cases:
  "round_half_even x = \<lfloor>x\<rfloor> \<or> round_half_even x = \<lfloor>x\<rfloor> + 1"
  by (simp add: round_half_even_def Let_def)

lemma round_half_even_mono:
  assumes "x \<le> y"
  shows "round_half_even x \<le> round_half_even y"
proof (cases "\<lfloor>x\<rfloor> = \<lfloor>y\<rfloor>")
  case True
  then show ?thesis
    using assms by (auto simp add: round_half_even_def Let_def)
next
  case False
  then have "\<lfloor>x\<rfloor> + 1 \<le> \<lfloor>y\<rfloor>"
    using floor_mono [OF assms] by simp
  moreover have "round_half_even x \<le> \<lfloor>x\<rfloor> + 1"
    using round_half_even_cases [of x] by auto
  moreover have "\<lfloor>y\<rfloor> \<le> round_half_even y"
    using round_half_even_cases [of y] by auto
  ultimately show ?thesis by simp
qed


lemma float64_0 [simp]: "float64 0 = 0"
  by (simp add: float64_def)

lemma float64_pos:
  "0 < q \<Longrightarrow>
   float64 q = of_int (round_half_even (q / 2 powi (ilog2 q - 52))) * 2 powi (ilog2 q - 52)"
  by (simp add: float64_def Let_def)

lemma float64_binade:
  assumes "0 < q"
  shows "2 powi ilog2 q \<le> float64 q" and "float64 q \<le> 2 powi (ilog2 q + 1)"
proof -
  define u :: rat where "u = 2 powi (ilog2 q - 52)"
  have u: "0 < u" by (simp add: u_def)
  have lo: "2 powi ilog2 q = 2 ^ 52 * u" and hi: "2 powi (ilog2 q + 1) = 2 ^ 53 * u"
    by (simp_all add: u_def power_int_diff power_int_add)
  have "of_int (2 ^ 52) \<le> q / u"
    using ilog2_bounds(1) [OF assms] u by (simp add: lo pos_le_divide_eq)
  then have "round_half_even (of_int (2 ^ 52)) \<le> round_half_even (q / u)"
    by (rule round_half_even_mono)
  then have "(of_int (2 ^ 52) :: rat) \<le> of_int (round_half_even (q / u))"
    by (simp only: round_half_even_of_int of_int_le_iff)
  then have "2 ^ 52 * u \<le> of_int (round_half_even (q / u)) * u"
    using u by simp
  then show "2 powi ilog2 q \<le> float64 q"
    using assms by (simp add: float64_pos lo flip: u_def)
  have "q / u \<le> of_int (2 ^ 53)"
    using ilog2_bounds(2) [OF assms] u by (simp add: hi pos_divide_le_eq)
  then have "round_half_even (q / u) \<le> round_half_even (of_int (2 ^ 53))"
    by (rule round_half_even_mono)
  then have "(of_int (round_half_even (q / u)) :: rat) \<le> of_int (2 ^ 53)"
    by (simp only: round_half_even_of_int of_int_le_iff)
  then have "of_int (round_half_even (q / u)) * u \<le> 2 ^ 53 * u"
    using u by simp
  then show "float64 q \<le> 2 powi (ilog2 q + 1)"
    using assms by (simp add: float64_pos hi flip: u_def)
qed

lemma float64_nonneg: "0 \<le> q \<Longrightarrow> 0 \<le> float64 q"
proof (cases "q = 0")
  case True
  then show ?thesis by simp
next
  case False
  assume "0 \<le> q"
  with False have "0 < q" by simp
  then have "2 powi ilog2 q \<le> float64 q" by (rule float64_binade)
  moreover have "(0::rat) < 2 powi ilog2 q" by simp
  ultimately show ?thesis by linarith
qed

lemma float64_mono_pos:
  assumes "0 < x" and "x \<le> y"
  shows "float64 x \<le> float64 y"
proof -
  from assms have y: "0 < y" by simp
  have "(2::rat) powi ilog2 x < 2 powi (ilog2 y + 1)"
    using ilog2_bounds(1) [OF assms(1)] ilog2_bounds(2) [OF y] assms(2) by linarith
  then have le: "ilog2 x \<le> ilog2 y"
    using two_powi_less_cancel [of "ilog2 x" "ilog2 y + 1"] by simp
  show ?thesis
  proof (cases "ilog2 x = ilog2 y")
    case True
    define u :: rat where "u = 2 powi (ilog2 y - 52)"
    have u: "0 < u" by (simp add: u_def)
    have "x / u \<le> y / u"
      using assms(2) u by (simp add: divide_right_mono)
    then have "round_half_even (x / u) \<le> round_half_even (y / u)"
      by (rule round_half_even_mono)
    then have "(of_int (round_half_even (x / u)) :: rat) \<le> of_int (round_half_even (y / u))"
      by (simp only: of_int_le_iff)
    then have "of_int (round_half_even (x / u)) * u \<le> of_int (round_half_even (y / u)) * u"
      using u by simp
    then show ?thesis
      using assms(1) y by (simp add: float64_pos True flip: u_def)
  next
    case False
    with le have "ilog2 x + 1 \<le> ilog2 y" by simp
    then have "(2::rat) powi (ilog2 x + 1) \<le> 2 powi ilog2 y" by (rule two_powi_le)
    with float64_binade(2) [OF assms(1)] float64_binade(1) [OF y]
    show ?thesis by linarith
  qed
qed

lemma float64_mono:
  assumes "0 \<le> x" and "x \<le> y"
  shows "float64 x \<le> float64 y"
proof (cases "x = 0")
  case True
  then show ?thesis
    using assms float64_nonneg [of y] by simp
next
  case False
  with assms(1) have "0 < x" by simp
  then show ?thesis using assms(2) by (rule float64_mono_pos)
qed

lemma float64_of_int_exact:
  assumes "0 \<le> n" and "n \<le> 2 ^ 53"
  shows "float64 (of_int n) = of_int n"
proof (cases "n = 0")
  case True
  then show ?thesis by simp
next
  case False
  with assms(1) have n: "0 < n" by simp
  then have q: "(0::rat) < of_int n" by simp
  define e where "e = ilog2 (of_int n)"
  have "(1::rat) \<le> of_int n" using n by simp
  then have "(2::rat) powi 0 < 2 powi (e + 1)"
    using ilog2_bounds(2) [OF q] by (simp add: e_def)
  then have e0: "0 \<le> e"
    using two_powi_less_cancel [of 0 "e + 1"] by simp
  have "(of_int n :: rat) \<le> of_int (2 ^ 53)"
    using assms(2) by (simp only: of_int_le_iff)
  then have n53: "(of_int n :: rat) \<le> 2 powi 53" by simp
  then have "(2::rat) powi e < 2 powi 54"
    using ilog2_bounds(1) [OF q] by (simp add: e_def)
  then have e53: "e \<le> 53"
    using two_powi_less_cancel [of e 54] by simp
  show ?thesis
  proof (cases "e = 53")
    case True
    then have "(2::rat) ^ 53 \<le> of_int n"
      using ilog2_bounds(1) [OF q] by (simp add: e_def)
    with n53 have eq: "(of_int n :: rat) = 2 ^ 53" by simp
    have "of_int n / (2::rat) powi (e - 52) = of_int (2 ^ 52)"
      by (simp add: eq True)
    then have "round_half_even (of_int n / 2 powi (e - 52)) = 2 ^ 52"
      by (simp only: round_half_even_of_int)
    then have "float64 (of_int n) = of_int (2 ^ 52) * 2 powi (e - 52)"
      using q by (simp add: float64_pos flip: e_def)
    then show ?thesis by (simp add: eq True)
  next
    case False
    with e53 have e52: "e \<le> 52" by simp
    define m where "m = nat (52 - e)"
    have u: "(2::rat) powi (e - 52) = 1 / 2 ^ m"
      using e52 power_int_minus_divide [of "2::rat" "52 - e"]
      by (simp add: m_def power_int_nonneg_exp)
    have "of_int n / (2::rat) powi (e - 52) = of_int (n * 2 ^ m)"
      by (simp add: u)
    then have "round_half_even (of_int n / 2 powi (e - 52)) = n * 2 ^ m"
      by (simp only: round_half_even_of_int)
    then have "float64 (of_int n) = of_int (n * 2 ^ m) * 2 powi (e - 52)"
      using q by (simp add: float64_pos flip: e_def)
    then show ?thesis by (simp add: u)
  qed
qed


lemma float64_1 [simp]: "float64 1 = 1"
  using float64_of_int_exact [of 1] by simp

lemma ratio_fraction:
  assumes "0 \<le> r" and "r \<le> 100"
  shows "float64 (float64 (of_int r) / 100) = float64 (of_int r / 100)"
    and "0 \<le> float64 (of_int r / 100)" and "float64 (of_int r / 100) \<le> 1"
proof -
  have "r \<le> 2 ^ 53" using assms(2) by simp
  then show "float64 (float64 (of_int r) / 100) = float64 (of_int r / 100)"
    using assms(1) by (simp add: float64_of_int_exact)
  have lo: "(0::rat) \<le> of_int r / 100" using assms(1) by simp
  then show "0 \<le> float64 (of_int r / 100)" by (rule float64_nonneg)
  have "(of_int r :: rat) / 100 \<le> 1" using assms(2) by simp
  with lo have "float64 (of_int r / 100) \<le> float64 1" by (rule float64_mono)
  then show "float64 (of_int r / 100) \<le> 1" by simp
qed

lemma ratio_fraction_mono:
  assumes "0 \<le> r1" and "r1 \<le> r2"
  shows "float64 (of_int r1 / 100) \<le> float64 (of_int r2 / 100)"
proof (rule float64_mono)
  show "(0::rat) \<le> of_int r1 / 100" using assms(1) by simp
  show "(of_int r1 :: rat) / 100 \<le> of_int r2 / 100" using assms(2) by simp
qed

lemma sint_totalRows:
  assumes "0 \<le> sint sc" and "sint sc \<le> 2 ^ 53" and "0 \<le> sint ratio" and "sint ratio \<le> 100"
  shows "sint (totalRows sc ratio) =
           \<lfloor>float64 (of_int (sint sc) * float64 (of_int (sint ratio) / 100))\<rfloor>"
    and "0 \<le> sint (totalRows sc ratio)" and "sint (totalRows sc ratio) \<le> sint sc"
proof -
  define f where "f = float64 (of_int (sint ratio) / 100)"
  define p where "p = float64 (of_int (sint sc) * f)"
  have f: "0 \<le> f" "f \<le> 1"
    using ratio_fraction(2,3) [OF assms(3,4)] by (simp_all add: f_def)
  have S: "(0::rat) \<le> of_int (sint sc)" using assms(1) by (simp del: of_int_sint)
  have p0: "0 \<le> p"
    unfolding p_def using S f(1) by (intro float64_nonneg mult_nonneg_nonneg)
  have "of_int (sint sc) * f \<le> of_int (sint sc) * 1"
    using S f(2) by (rule mult_left_mono [rotated])
  then have "p \<le> float64 (of_int (sint sc))"
    unfolding p_def using S f(1) by (intro float64_mono mult_nonneg_nonneg) simp_all
  then have pS: "p \<le> of_int (sint sc)"
    using assms(1,2) by (simp add: float64_of_int_exact del: of_int_sint)
  define t where "t = \<lfloor>p\<rfloor>"
  have t0: "0 \<le> t" using p0 by (simp add: t_def)
  have tS: "t \<le> sint sc" using pS by (simp add: t_def floor_le_iff del: of_int_sint)
  have "totalRows sc ratio = int_of_float64 p"
    using assms
    by (simp add: totalRows_def p_def f_def float64_of_int_exact ratio_fraction(1)
        del: of_int_sint)
  also have "\<dots> =
      (if - (2 ^ 63) \<le> t \<and> t < 2 ^ 63 then word_of_int t else 0x8000000000000000)"
    unfolding int_of_float64_def Let_def t_def using p0 by (simp only: if_True)
  also have "\<dots> = word_of_int t"
    using t0 tS assms(2) by simp
  finally have tr: "totalRows sc ratio = word_of_int t" .
  have "sint (word_of_int t :: int64) = t"
    using t0 tS assms(2) by (intro sint_word_of_int64) simp_all
  with tr have eq: "sint (totalRows sc ratio) = t" by simp
  then show "sint (totalRows sc ratio) =
      \<lfloor>float64 (of_int (sint sc) * float64 (of_int (sint ratio) / 100))\<rfloor>"
    by (simp only: t_def p_def f_def)
  show "0 \<le> sint (totalRows sc ratio)" using eq t0 by simp
  show "sint (totalRows sc ratio) \<le> sint sc" using eq tS by simp
qed

lemma totalRows_mono:
  assumes "0 \<le> sint sc" and "sint sc \<le> 2 ^ 53"
    and "0 \<le> sint r1" and "sint r1 \<le> sint r2" and "sint r2 \<le> 100"
  shows "sint (totalRows sc r1) \<le> sint (totalRows sc r2)"
proof -
  have r1: "sint r1 \<le> 100" and r2: "0 \<le> sint r2" using assms by simp_all
  have S: "(0::rat) \<le> of_int (sint sc)" using assms(1) by (simp del: of_int_sint)
  have f1: "0 \<le> float64 (of_int (sint r1) / 100)"
    by (rule ratio_fraction(2) [OF assms(3) r1])
  have "of_int (sint sc) * float64 (of_int (sint r1) / 100)
      \<le> of_int (sint sc) * float64 (of_int (sint r2) / 100)"
    using S ratio_fraction_mono [OF assms(3,4)] by (rule mult_left_mono [rotated])
  then have "float64 (of_int (sint sc) * float64 (of_int (sint r1) / 100))
      \<le> float64 (of_int (sint sc) * float64 (of_int (sint r2) / 100))"
    using S f1 by (intro float64_mono mult_nonneg_nonneg)
  then show ?thesis
    by (simp only: sint_totalRows(1) [OF assms(1,2,3) r1]
        sint_totalRows(1) [OF assms(1,2) r2 assms(5)] floor_mono)
qed


lemma totalRows_100:
  assumes "0 \<le> sint sc" and "sint sc \<le> 2 ^ 53"
  shows "sint (totalRows sc 100) = sint sc"
proof -
  have "sint (totalRows sc 100) =
      \<lfloor>float64 (of_int (sint sc) * float64 (of_int (sint (100 :: int64)) / 100))\<rfloor>"
    using assms by (intro sint_totalRows(1)) simp_all
  then show ?thesis
    using assms by (simp add: float64_of_int_exact del: of_int_sint)
qed

section \<open>The number of rows to load\<close>

lemma totalRows_10_50: "totalRows 10 50 = 5"
  by code_simp

text \<open>
  C2: with scale 100 and ratio 29 the loader computes \<open>totalRows = 28\<close>, one less than
  \<open>\<lfloor>100 * 29 / 100\<rfloor> = 29\<close>: \<^verbatim>\<open>float64(29) / 100.0\<close> is the \<^verbatim>\<open>float64\<close> just below
  \<open>0.29\<close>, its product with 100 rounds to the \<^verbatim>\<open>float64\<close> just below 29, and the conversion
  to \<^verbatim>\<open>int\<close> discards the fraction.
\<close>

theorem totalRows_29_percent_of_100: "totalRows 100 29 = 28"
  by code_simp

section \<open>The bounded loader\<close>

lemma load_rows_split:
  "load_rows c g (k + m) fd acc =
     (case load_rows c g k fd acc of
        (Returns rows, fd') \<Rightarrow> load_rows c g m fd' rows
      | (Fails e, fd') \<Rightarrow> (Fails e, fd')
      | (Panics p, fd') \<Rightarrow> (Panics p, fd'))"
proof (induction k arbitrary: fd acc)
  case 0
  show ?case by simp
next
  case (Suc k)
  obtain res fd1 where d: "decodeRow c g fd = (res, fd1)"
    by (cases "decodeRow c g fd")
  show ?case
    by (cases res) (simp_all add: d Suc)
qed

lemma encodeRow_buffer:
  "fst (encodeRow c b row) = b @ fst (encodeRow c [] row)"
  by (simp add: encodeRow_def split: prod.splits option.splits)

lemma foldl_encodeRow:
  "foldl (\<lambda>b row. fst (encodeRow c b row)) b0 rows =
     b0 @ concat (map (\<lambda>row. fst (encodeRow c [] row)) rows)"
proof (induction rows arbitrary: b0)
  case Nil
  then show ?case by simp
next
  case (Cons row rows)
  show ?case
    using Cons [of "fst (encodeRow c b0 row)"] encodeRow_buffer [of c b0 row] by simp
qed

lemma dataFile_records:
  "dataFile c g rows =
     encodeMeta [] (scale g) (keySize g) (valSize g) @
     concat (map (\<lambda>row. fst (encodeRow c [] row)) rows)"
  by (simp add: dataFile_def foldl_encodeRow)

lemma load_rows_records:
  assumes "0 < sint (keySize g)" and "0 < sint (valSize g)"
    and "\<forall>row \<in> set rows.
        int (length (key row)) = sint (keySize g) \<and>
        int (length (val row)) = sint (valSize g) \<and>
        snd (encodeRow spec_codec [] row) = None \<and>
        DatumSize spec_codec * (length (key row) + length (val row) + 1) \<le> maxAlloc"
  shows "load_rows spec_codec g (length rows)
           (concat (map (\<lambda>row. fst (encodeRow spec_codec [] row)) rows) @ rest) acc =
         (Returns (acc @ rows), rest)"
  using assms(3)
proof (induction rows arbitrary: acc)
  case Nil
  then show ?case by simp
next
  case (Cons row rows)
  define out where "out = fst (encodeRow spec_codec [] row)"
  from Cons.prems have lk: "int (length (key row)) = sint (keySize g)"
    and lv: "int (length (val row)) = sint (valSize g)"
    and ok: "snd (encodeRow spec_codec [] row) = None"
    and mem: "DatumSize spec_codec * (length (key row) + length (val row) + 1) \<le> maxAlloc"
    by simp_all
  have enc: "encodeRow spec_codec [] row = (out, None)"
    using ok by (simp add: out_def prod_eq_iff)
  have "decodeRow spec_codec g (out @ R) = (Returns row, R)" for R
    using decodeRow_encodeRow [OF assms(1,2) lk lv enc mem, of R] by simp
  then have dec: "decodeRow spec_codec g (fst (encodeRow spec_codec [] row) @ R) =
      (Returns row, R)" for R
    by (simp only: out_def)
  show ?case
    using Cons.IH [of "acc @ [row]"] Cons.prems by (simp add: dec)
qed

lemma load_rows_prefix:
  assumes "0 < sint (keySize g)" and "0 < sint (valSize g)"
    and "\<forall>row \<in> set rows.
        int (length (key row)) = sint (keySize g) \<and>
        int (length (val row)) = sint (valSize g) \<and>
        snd (encodeRow spec_codec [] row) = None \<and>
        DatumSize spec_codec * (length (key row) + length (val row) + 1) \<le> maxAlloc"
    and "n \<le> length rows"
  shows "load_rows spec_codec g n
           (concat (map (\<lambda>row. fst (encodeRow spec_codec [] row)) rows) @ rest) acc =
         (Returns (acc @ take n rows),
          concat (map (\<lambda>row. fst (encodeRow spec_codec [] row)) (drop n rows)) @ rest)"
proof -
  have sub: "\<forall>row \<in> set (take n rows).
        int (length (key row)) = sint (keySize g) \<and>
        int (length (val row)) = sint (valSize g) \<and>
        snd (encodeRow spec_codec [] row) = None \<and>
        DatumSize spec_codec * (length (key row) + length (val row) + 1) \<le> maxAlloc"
    using assms(3) by (meson in_set_takeD)
  have "concat (map (\<lambda>row. fst (encodeRow spec_codec [] row)) rows) @ rest =
      concat (map (\<lambda>row. fst (encodeRow spec_codec [] row)) (take n rows)) @
      (concat (map (\<lambda>row. fst (encodeRow spec_codec [] row)) (drop n rows)) @ rest)"
    by (simp flip: concat_append map_append)
  moreover have "length (take n rows) = n" using assms(4) by simp
  ultimately show ?thesis
    using load_rows_records [OF assms(1,2) sub,
        of "concat (map (\<lambda>row. fst (encodeRow spec_codec [] row)) (drop n rows)) @ rest" acc]
    by simp
qed

lemma sint_sizes:
  assumes "0 < sint ks" and "0 < sint vs" and "sint ks + sint vs + 1 < 2 ^ 63"
  shows "sint (ks + vs + 1 :: int64) = sint ks + sint vs + 1"
proof -
  have "sint (ks + vs) = sint ks + sint vs"
    using assms by (intro sint_add) simp_all
  then show ?thesis
    using assms sint_add [of "ks + vs" 1] by simp
qed

lemma makeslice_scale:
  "makeslice 8 0 sc = None \<longleftrightarrow> 0 \<le> sint sc \<and> sint sc \<le> 2 ^ 45"
  by (auto simp add: makeslice_capacity maxAlloc_def)

lemma wellFormed_sizes:
  assumes "wellFormed spec_codec g rows"
  shows "makeslice (DatumSize spec_codec) 0 (keySize g + valSize g + 1) = None"
proof -
  from assms have "rows \<noteq> []" by (auto simp add: wellFormed_def)
  then obtain row where row: "row \<in> set rows" by (cases rows) auto
  from assms row have K: "0 < sint (keySize g)" and V: "0 < sint (valSize g)"
    and lk: "int (length (key row)) = sint (keySize g)"
    and lv: "int (length (val row)) = sint (valSize g)"
    and mem: "DatumSize spec_codec * (length (key row) + length (val row) + 1) \<le> maxAlloc"
    by (simp_all add: wellFormed_def)
  from mem have n: "56 * (length (key row) + length (val row) + 1) \<le> (2 :: nat) ^ 48"
    by (simp add: spec_codec_def maxAlloc_def)
  then have "int (length (key row)) + int (length (val row)) + 1 < 2 ^ 63" by simp
  then have "sint (keySize g) + sint (valSize g) + 1 < 2 ^ 63"
    by (simp only: lk lv)
  from sint_sizes [OF K V this]
  have "sint (keySize g + valSize g + 1) = int (length (key row) + length (val row) + 1)"
    by (simp add: lk lv)
  then have "nat (sint (keySize g + valSize g + 1)) = length (key row) + length (val row) + 1"
    and "0 \<le> sint (keySize g + valSize g + 1)"
    by simp_all
  with mem show ?thesis
    by (simp add: makeslice_capacity not_less)
qed

lemma load_rows_overrun:
  assumes "0 < sint (keySize g)" and "0 < sint (valSize g)"
    and "\<forall>row \<in> set rows.
        int (length (key row)) = sint (keySize g) \<and>
        int (length (val row)) = sint (valSize g) \<and>
        snd (encodeRow spec_codec [] row) = None \<and>
        DatumSize spec_codec * (length (key row) + length (val row) + 1) \<le> maxAlloc"
    and "makeslice (DatumSize spec_codec) 0 (keySize g + valSize g + 1) = None"
    and "length rows < n"
  shows "load_rows spec_codec g n
           (concat (map (\<lambda>row. fst (encodeRow spec_codec [] row)) rows)) acc =
         (Fails (New ''incorrect header''), [])"
proof -
  from assms(5) have "n = length rows + Suc (n - Suc (length rows))" by simp
  then obtain m where m: "n = length rows + Suc m" ..
  have full: "load_rows spec_codec g (length rows)
      (concat (map (\<lambda>row. fst (encodeRow spec_codec [] row)) rows)) acc =
      (Returns (acc @ rows), [])"
    using load_rows_records [OF assms(1,2,3), of "[]" acc] by simp
  have "load_rows spec_codec g (length rows + Suc m)
      (concat (map (\<lambda>row. fst (encodeRow spec_codec [] row)) rows)) acc =
      load_rows spec_codec g (Suc m) [] (acc @ rows)"
    using load_rows_split [of spec_codec g "length rows" "Suc m"
        "concat (map (\<lambda>row. fst (encodeRow spec_codec [] row)) rows)" acc] full
    by (simp del: load_rows.simps)
  also have "\<dots> = (Fails (New ''incorrect header''), [])"
    using decodeRow_short_header [OF assms(4), of "[]"] by simp
  finally show ?thesis by (simp only: m)
qed

lemma globals_eta: "\<lparr>scale = scale g, keySize = keySize g, valSize = valSize g\<rparr> = g"
  by (cases g) simp

lemma load_wellFormed:
  assumes wf: "wellFormed spec_codec g rows"
  shows "makeslice 8 0 (scale g) = None \<Longrightarrow>
         nat (sint (totalRows (scale g) ratio)) \<le> length rows \<Longrightarrow>
         load spec_codec (Some (dataFile spec_codec g rows)) g0 ratio =
           (Returns (take (nat (sint (totalRows (scale g) ratio))) rows),
            concat (map (\<lambda>row. fst (encodeRow spec_codec [] row))
              (drop (nat (sint (totalRows (scale g) ratio))) rows)), g)"
    and "makeslice 8 0 (scale g) = None \<Longrightarrow>
         length rows < nat (sint (totalRows (scale g) ratio)) \<Longrightarrow>
         load spec_codec (Some (dataFile spec_codec g rows)) g0 ratio =
           (Fails (New ''incorrect header''), [], g)"
    and "makeslice 8 0 (scale g) = Some p \<Longrightarrow>
         load spec_codec (Some (dataFile spec_codec g rows)) g0 ratio =
           (Panics p, concat (map (\<lambda>row. fst (encodeRow spec_codec [] row)) rows), g)"
proof -
  from wf have S: "0 < sint (scale g)" and K: "0 < sint (keySize g)"
    and V: "0 < sint (valSize g)"
    and rows: "\<forall>row \<in> set rows.
        int (length (key row)) = sint (keySize g) \<and>
        int (length (val row)) = sint (valSize g) \<and>
        snd (encodeRow spec_codec [] row) = None \<and>
        DatumSize spec_codec * (length (key row) + length (val row) + 1) \<le> maxAlloc"
    by (simp_all add: wellFormed_def)
  have meta: "decodeMeta (dataFile spec_codec g rows) g0 =
      (None, concat (map (\<lambda>row. fst (encodeRow spec_codec [] row)) rows), g)"
    using decodeMeta_encodeMeta [OF S K V] by (simp add: dataFile_records globals_eta)
  show "load spec_codec (Some (dataFile spec_codec g rows)) g0 ratio =
           (Returns (take (nat (sint (totalRows (scale g) ratio))) rows),
            concat (map (\<lambda>row. fst (encodeRow spec_codec [] row))
              (drop (nat (sint (totalRows (scale g) ratio))) rows)), g)"
    if "makeslice 8 0 (scale g) = None"
      and "nat (sint (totalRows (scale g) ratio)) \<le> length rows"
    using load_rows_prefix [OF K V rows that(2), of "[]" "[]"] that(1)
    by (simp add: load_def meta)
  show "load spec_codec (Some (dataFile spec_codec g rows)) g0 ratio =
           (Fails (New ''incorrect header''), [], g)"
    if "makeslice 8 0 (scale g) = None"
      and "length rows < nat (sint (totalRows (scale g) ratio))"
    using load_rows_overrun [OF K V rows wellFormed_sizes [OF wf] that(2), of "[]"] that(1)
    by (simp add: load_def meta)
  show "load spec_codec (Some (dataFile spec_codec g rows)) g0 ratio =
           (Panics p, concat (map (\<lambda>row. fst (encodeRow spec_codec [] row)) rows), g)"
    if "makeslice 8 0 (scale g) = Some p"
    using that by (simp add: load_def meta)
qed

lemma load_allocation_panics:
  assumes "decodeMeta bytes g = (None, fd1, g1)" and "makeslice 8 0 (scale g1) = Some p"
  shows "load c (Some bytes) g ratio = (Panics p, fd1, g1)"
  using assms by (simp add: load_def)

lemma wellFormed_two_rows:
  "wellFormed spec_codec \<lparr>scale = 2, keySize = 1, valSize = 1\<rparr>
     [\<lparr>key = [IntDatum 1], val = [IntDatum 2], handle = 3\<rparr>,
      \<lparr>key = [IntDatum 4], val = [UintDatum 5], handle = 6\<rparr>]"
  by (simp add: wellFormed_def encodeRow_def spec_codec_def maxAlloc_def)


text \<open>
  C8: for every codec, file and ratio, when the header is valid and \<open>load\<close> enters its loop
  (its slice of \<open>scale\<close> rows is allocated), the first \<open>k\<close> records decode, \<open>k\<close> is less
  than \<open>totalRows\<close> and the next call of \<open>decodeRow\<close> returns the error \<open>e\<close>, \<open>load\<close> returns
  \<open>e\<close> and no rows: the \<open>k\<close> rows decoded before are not returned. (Where the slice cannot
  be allocated no record is decoded: \<open>load\<close> panics, lemma \<open>load_allocation_panics\<close>.)
\<close>

theorem load_decode_error:
  assumes "decodeMeta bytes g = (None, fd1, g1)"
    and "makeslice 8 0 (scale g1) = None"
    and "load_rows c g1 k fd1 [] = (Returns rows, fd2)"
    and "k < nat (sint (totalRows (scale g1) ratio))"
    and "decodeRow c g1 fd2 = (Fails e, fd3)"
  shows "load c (Some bytes) g ratio = (Fails e, fd3, g1)"
proof -
  define n where "n = nat (sint (totalRows (scale g1) ratio))"
  from assms(4) have "n = k + Suc (n - Suc k)" by (simp add: n_def)
  then obtain m where m: "n = k + Suc m" ..
  have "load_rows c g1 (k + Suc m) fd1 [] = load_rows c g1 (Suc m) fd2 rows"
    using load_rows_split [of c g1 k "Suc m" fd1 "[]"] assms(3) by (simp del: load_rows.simps)
  also have "\<dots> = (Fails e, fd3)"
    using assms(5) by simp
  finally have "load_rows c g1 n fd1 [] = (Fails e, fd3)"
    by (simp only: m)
  then show ?thesis
    using assms(1,2) by (simp add: load_def flip: n_def)
qed

theorem load_decode_error_witness:
  "decodeMeta
     (encodeMeta [] 2 1 1 @
      fst (encodeRow spec_codec [] \<lparr>key = [IntDatum 1], val = [IntDatum 2], handle = 3\<rparr>) @
      [0, 0, 0])
     \<lparr>scale = 0, keySize = 0, valSize = 0\<rparr> =
     (None,
      fst (encodeRow spec_codec [] \<lparr>key = [IntDatum 1], val = [IntDatum 2], handle = 3\<rparr>) @
      [0, 0, 0],
      \<lparr>scale = 2, keySize = 1, valSize = 1\<rparr>) \<and>
   makeslice 8 0 (scale \<lparr>scale = 2, keySize = 1, valSize = 1\<rparr>) = None \<and>
   load_rows spec_codec \<lparr>scale = 2, keySize = 1, valSize = 1\<rparr> 1
     (fst (encodeRow spec_codec [] \<lparr>key = [IntDatum 1], val = [IntDatum 2], handle = 3\<rparr>) @
      [0, 0, 0]) [] =
     (Returns [\<lparr>key = [IntDatum 1], val = [IntDatum 2], handle = 3\<rparr>], [0, 0, 0]) \<and>
   1 < nat (sint (totalRows (scale \<lparr>scale = 2, keySize = 1, valSize = 1\<rparr>) 100)) \<and>
   decodeRow spec_codec \<lparr>scale = 2, keySize = 1, valSize = 1\<rparr> [0, 0, 0] =
     (Fails (New ''incorrect header''), []) \<and>
   load spec_codec
     (Some (encodeMeta [] 2 1 1 @
        fst (encodeRow spec_codec [] \<lparr>key = [IntDatum 1], val = [IntDatum 2], handle = 3\<rparr>) @
        [0, 0, 0]))
     \<lparr>scale = 0, keySize = 0, valSize = 0\<rparr> 100 =
     (Fails (New ''incorrect header''), [], \<lparr>scale = 2, keySize = 1, valSize = 1\<rparr>)"
proof -
  define ra :: "Datum comparableRow"
    where "ra = \<lparr>key = [IntDatum 1], val = [IntDatum 2], handle = 3\<rparr>"
  define g2 where "g2 = \<lparr>scale = 2, keySize = 1, valSize = 1\<rparr>"
  have h1: "decodeMeta (encodeMeta [] 2 1 1 @ fst (encodeRow spec_codec [] ra) @ [0, 0, 0])
      \<lparr>scale = 0, keySize = 0, valSize = 0\<rparr> =
      (None, fst (encodeRow spec_codec [] ra) @ [0, 0, 0], g2)"
    unfolding g2_def by (rule decodeMeta_encodeMeta) simp_all
  have h0: "makeslice 8 0 (scale g2) = None"
    by (simp add: makeslice_scale g2_def)
  have h2: "load_rows spec_codec g2 1 (fst (encodeRow spec_codec [] ra) @ [0, 0, 0]) [] =
      (Returns [ra], [0, 0, 0])"
    using load_rows_records [of g2 "[ra]" "[0, 0, 0]" "[]"]
    by (simp add: g2_def ra_def encodeRow_def spec_codec_def maxAlloc_def)
  have h3: "1 < nat (sint (totalRows (scale g2) 100))"
    using totalRows_100 [of "scale g2"] by (simp add: g2_def)
  have h4: "decodeRow spec_codec g2 [0, 0, 0] = (Fails (New ''incorrect header''), [])"
    by (rule decodeRow_short_header)
      (simp_all add: g2_def makeslice_capacity maxAlloc_def spec_codec_def)
  from load_decode_error [OF h1 h0 h2 h3 h4] h1 h0 h2 h3 h4 show ?thesis
    unfolding ra_def g2_def by blast
qed

lemma load_decode_panic:
  assumes "decodeMeta bytes g = (None, fd1, g1)"
    and "makeslice 8 0 (scale g1) = None"
    and "load_rows c g1 k fd1 [] = (Returns rows, fd2)"
    and "k < nat (sint (totalRows (scale g1) ratio))"
    and "decodeRow c g1 fd2 = (Panics p, fd3)"
  shows "load c (Some bytes) g ratio = (Panics p, fd3, g1)"
proof -
  define n where "n = nat (sint (totalRows (scale g1) ratio))"
  from assms(4) have "n = k + Suc (n - Suc k)" by (simp add: n_def)
  then obtain m where m: "n = k + Suc m" ..
  have "load_rows c g1 (k + Suc m) fd1 [] = load_rows c g1 (Suc m) fd2 rows"
    using load_rows_split [of c g1 k "Suc m" fd1 "[]"] assms(3) by (simp del: load_rows.simps)
  also have "\<dots> = (Panics p, fd3)"
    using assms(5) by simp
  finally have "load_rows c g1 n fd1 [] = (Panics p, fd3)"
    by (simp only: m)
  then show ?thesis
    using assms(1,2) by (simp add: load_def flip: n_def)
qed




text \<open>
  C7: for a well-formed dataset file and ratios \<open>0 \<le> r1 \<le> r2 \<le> 100\<close>, \<open>load\<close> with \<open>r1\<close>
  returns at most as many rows as \<open>load\<close> with \<open>r2\<close>. Up to the scale \<open>2 ^ 45\<close> both calls
  return a prefix of the rows, of \<open>totalRows\<close> rows, and \<open>totalRows\<close> is monotone in the
  ratio; above it both calls panic at the allocation of the slice and return no rows.
\<close>

theorem load_ratio_monotone:
  assumes "wellFormed spec_codec g rows"
    and "0 \<le> sint r1" and "sint r1 \<le> sint r2" and "sint r2 \<le> 100"
  shows "rowCount (fst (load spec_codec (Some (dataFile spec_codec g rows)) g0 r1)) \<le>
         rowCount (fst (load spec_codec (Some (dataFile spec_codec g rows)) g0 r2))"
proof (cases "makeslice 8 0 (scale g)")
  case (Some p)
  show ?thesis
    by (simp add: load_wellFormed(3) [OF assms(1) Some] rowCount_def)
next
  case None
  from assms(1) have S: "0 \<le> sint (scale g)" and len: "int (length rows) = sint (scale g)"
    by (simp_all add: wellFormed_def)
  from None have "sint (scale g) \<le> 2 ^ 45" by (simp add: makeslice_scale)
  then have b: "sint (scale g) \<le> 2 ^ 53" by simp
  have r1: "sint r1 \<le> 100" and r2: "0 \<le> sint r2" using assms(2,3,4) by simp_all
  have n1: "nat (sint (totalRows (scale g) r1)) \<le> length rows"
    using sint_totalRows(3) [OF S b assms(2) r1] len by simp
  have n2: "nat (sint (totalRows (scale g) r2)) \<le> length rows"
    using sint_totalRows(3) [OF S b r2 assms(4)] len by simp
  have "nat (sint (totalRows (scale g) r1)) \<le> nat (sint (totalRows (scale g) r2))"
    using totalRows_mono [OF S b assms(2,3,4)] by simp
  then show ?thesis
    using n1 n2
    by (simp add: load_wellFormed(1) [OF assms(1) None n1]
        load_wellFormed(1) [OF assms(1) None n2] rowCount_def)
qed

theorem load_ratio_monotone_witness:
  "wellFormed spec_codec \<lparr>scale = 2, keySize = 1, valSize = 1\<rparr>
     [\<lparr>key = [IntDatum 1], val = [IntDatum 2], handle = 3\<rparr>,
      \<lparr>key = [IntDatum 4], val = [UintDatum 5], handle = 6\<rparr>] \<and>
   0 \<le> sint (50 :: int64) \<and> sint (50 :: int64) \<le> sint (100 :: int64) \<and>
   sint (100 :: int64) \<le> 100 \<and>
   rowCount (fst (load spec_codec
     (Some (dataFile spec_codec \<lparr>scale = 2, keySize = 1, valSize = 1\<rparr>
        [\<lparr>key = [IntDatum 1], val = [IntDatum 2], handle = 3\<rparr>,
         \<lparr>key = [IntDatum 4], val = [UintDatum 5], handle = 6\<rparr>]))
     \<lparr>scale = 0, keySize = 0, valSize = 0\<rparr> 50)) \<le>
   rowCount (fst (load spec_codec
     (Some (dataFile spec_codec \<lparr>scale = 2, keySize = 1, valSize = 1\<rparr>
        [\<lparr>key = [IntDatum 1], val = [IntDatum 2], handle = 3\<rparr>,
         \<lparr>key = [IntDatum 4], val = [UintDatum 5], handle = 6\<rparr>]))
     \<lparr>scale = 0, keySize = 0, valSize = 0\<rparr> 100))"
proof -
  have r: "0 \<le> sint (50 :: int64)" "sint (50 :: int64) \<le> sint (100 :: int64)"
    "sint (100 :: int64) \<le> 100" by simp_all
  from load_ratio_monotone [OF wellFormed_two_rows r,
      of "\<lparr>scale = 0, keySize = 0, valSize = 0\<rparr>"] wellFormed_two_rows r
  show ?thesis by blast
qed

section \<open>Generation\<close>

lemma NewDatum_spec_codec: "NewDatum spec_codec x = IntDatum x"
  by (simp add: spec_codec_def)

lemma EncodeKey_spec_codec: "EncodeKey spec_codec = encode"
  by (simp add: spec_codec_def)

lemma NewIntDatum_spec_codec: "NewIntDatum spec_codec x = IntDatum x"
  by (simp add: spec_codec_def)

lemma draw_spec_codec:
  "length (fst (draw spec_codec rnd n r)) = n \<and>
   OtherDatum \<notin> set (fst (draw spec_codec rnd n r))"
proof (induction n arbitrary: r)
  case 0
  show ?case by simp
next
  case (Suc n)
  obtain x r1 where x: "rand_Int rnd r = (x, r1)" by (cases "rand_Int rnd r")
  obtain xs r2 where xs: "draw spec_codec rnd n r1 = (xs, r2)"
    by (cases "draw spec_codec rnd n r1")
  show ?case
    using Suc [of r1] by (simp add: x xs NewDatum_spec_codec)
qed

lemma nextRow_spec_codec:
  assumes "makeslice (DatumSize spec_codec) ks ks = None"
    and "makeslice (DatumSize spec_codec) vs vs = None"
  shows "\<exists>row r'. nextRow spec_codec rnd r ks vs = (Returns row, r') \<and>
           length (key row) = unat ks \<and> length (val row) = unat vs \<and>
           OtherDatum \<notin> set (key row) \<and> OtherDatum \<notin> set (val row)"
proof -
  obtain k r1 where k: "draw spec_codec rnd (unat ks) r = (k, r1)"
    by (cases "draw spec_codec rnd (unat ks) r")
  obtain v r2 where v: "draw spec_codec rnd (unat vs) r1 = (v, r2)"
    by (cases "draw spec_codec rnd (unat vs) r1")
  obtain h r3 where h: "rand_Int63 rnd r2 = (h, r3)" by (cases "rand_Int63 rnd r2")
  have "nextRow spec_codec rnd r ks vs = (Returns \<lparr>key = k, val = v, handle = h\<rparr>, r3)"
    using assms by (simp add: nextRow_def k v h)
  moreover have "length k = unat ks \<and> OtherDatum \<notin> set k"
    using draw_spec_codec [of rnd "unat ks" r] by (simp add: k)
  moreover have "length v = unat vs \<and> OtherDatum \<notin> set v"
    using draw_spec_codec [of rnd "unat vs" r1] by (simp add: v)
  ultimately show ?thesis by simp
qed

lemma encodeRow_representable:
  assumes "OtherDatum \<notin> set (key row)" and "OtherDatum \<notin> set (val row)"
  shows "encodeRow spec_codec b row =
     (b @ PutUint64 (word_of_nat (9 * (length (key row) + length (val row) + 1))) @
        fst (encode [] (key row @ val row @ [IntDatum (handle row)])), None)"
proof -
  define kb where "kb = fst (encode [] (key row))"
  define vb where "vb = fst (encode [] (val row))"
  have ek: "encode [] (key row) = (kb, None)"
    using encode_append_buffer [OF assms(1), of "[]"] by (simp add: kb_def)
  have ev: "encode kb (val row) = (kb @ vb, None)"
    unfolding vb_def by (rule encode_append_buffer [OF assms(2)])
  have "snd (encode (kb @ vb) [IntDatum (handle row)]) = None"
    by (simp add: encode_None_iff)
  then have "encode (kb @ vb) [IntDatum (handle row)] =
      (fst (encode (kb @ vb) [IntDatum (handle row)]), None)"
    by (simp add: prod_eq_iff)
  then obtain hb where eh: "encode (kb @ vb) [IntDatum (handle row)] = (hb, None)" ..
  define out where "out = b @ PutUint64 (word_of_nat (length hb)) @ hb"
  have e: "encodeRow spec_codec b row = (out, None)"
    using ek ev eh
    by (simp add: encodeRow_def EncodeKey_spec_codec NewIntDatum_spec_codec out_def
        del: encode.simps)
  from encodeRow_spec_codec [OF e]
  have "out = b @ PutUint64 (word_of_nat (9 * (length (key row) + length (val row) + 1))) @
      fst (encode [] (key row @ val row @ [IntDatum (handle row)]))"
    by blast
  with e show ?thesis by (simp only:)
qed

lemma nextRows_spec_codec:
  assumes "makeslice (DatumSize spec_codec) (keySize g) (keySize g) = None"
    and "makeslice (DatumSize spec_codec) (valSize g) (valSize g) = None"
  shows "length (nextRows spec_codec rnd g n r) = n \<and>
         (\<forall>row \<in> set (nextRows spec_codec rnd g n r).
            length (key row) = unat (keySize g) \<and> length (val row) = unat (valSize g) \<and>
            OtherDatum \<notin> set (key row) \<and> OtherDatum \<notin> set (val row))"
proof (induction n arbitrary: r)
  case 0
  show ?case by simp
next
  case (Suc n)
  from nextRow_spec_codec [OF assms, of rnd r]
  obtain row r1 where "nextRow spec_codec rnd r (keySize g) (valSize g) = (Returns row, r1)"
    and "length (key row) = unat (keySize g)" and "length (val row) = unat (valSize g)"
    and "OtherDatum \<notin> set (key row)" and "OtherDatum \<notin> set (val row)"
    by blast
  then show ?case
    using Suc [of r1] by simp
qed

lemma export_rows_spec_codec:
  assumes "makeslice (DatumSize spec_codec) (keySize g) (keySize g) = None"
    and "makeslice (DatumSize spec_codec) (valSize g) (valSize g) = None"
  shows "fst (export_rows spec_codec rnd g n r out) =
         Returns (foldl (\<lambda>b row. fst (encodeRow spec_codec b row)) out
                    (nextRows spec_codec rnd g n r))"
proof (induction n arbitrary: r out)
  case 0
  show ?case by simp
next
  case (Suc n)
  from nextRow_spec_codec [OF assms, of rnd r]
  obtain row r1 where nr: "nextRow spec_codec rnd r (keySize g) (valSize g) = (Returns row, r1)"
    and ok: "OtherDatum \<notin> set (key row)" "OtherDatum \<notin> set (val row)"
    by blast
  have "snd (encodeRow spec_codec out row) = None"
    using encodeRow_representable [OF ok, of out] by simp
  then have "encodeRow spec_codec out row = (fst (encodeRow spec_codec out row), None)"
    by (simp add: prod_eq_iff)
  then obtain b where enc: "encodeRow spec_codec out row = (b, None)" ..
  show ?case
    using Suc [of r1 b] by (simp add: nr enc)
qed

lemma export_dataFile:
  assumes "makeslice (DatumSize spec_codec) (keySize g) (keySize g) = None"
    and "makeslice (DatumSize spec_codec) (valSize g) (valSize g) = None"
  shows "fst (export spec_codec rnd g r) =
         Returns (dataFile spec_codec g (nextRows spec_codec rnd g (nat (sint (scale g))) r))"
  by (simp add: export_def dataFile_def export_rows_spec_codec [OF assms])

lemma makeslice_sizes:
  assumes "0 < sint ks" and "0 < sint vs"
    and "DatumSize spec_codec * (unat ks + unat vs + 1) \<le> maxAlloc"
  shows "makeslice (DatumSize spec_codec) ks ks = None"
    and "makeslice (DatumSize spec_codec) vs vs = None"
proof -
  have k: "nat (sint ks) = unat ks"
    using assms(1) sint_nonneg_unat [of ks] by linarith
  have v: "nat (sint vs) = unat vs"
    using assms(2) sint_nonneg_unat [of vs] by linarith
  have "DatumSize spec_codec * unat ks \<le> DatumSize spec_codec * (unat ks + unat vs + 1)"
    and "DatumSize spec_codec * unat vs \<le> DatumSize spec_codec * (unat ks + unat vs + 1)"
    by (rule mult_le_mono2, simp)+
  with assms(3) have "DatumSize spec_codec * unat ks \<le> maxAlloc"
    and "DatumSize spec_codec * unat vs \<le> maxAlloc"
    by linarith+
  then show "makeslice (DatumSize spec_codec) ks ks = None"
    and "makeslice (DatumSize spec_codec) vs vs = None"
    using assms(1,2) by (simp_all add: makeslice_length k v not_less)
qed

lemma wellFormed_nextRows:
  assumes "0 < sint (scale g)" and "0 < sint (keySize g)" and "0 < sint (valSize g)"
    and "DatumSize spec_codec * (unat (keySize g) + unat (valSize g) + 1) \<le> maxAlloc"
  shows "wellFormed spec_codec g (nextRows spec_codec rnd g (nat (sint (scale g))) r)"
proof -
  have K: "0 \<le> sint (keySize g)" and V: "0 \<le> sint (valSize g)" using assms by simp_all
  note R = nextRows_spec_codec [OF makeslice_sizes [OF assms(2,3,4)],
      of rnd "nat (sint (scale g))" r]
  have "int (length (key row)) = sint (keySize g) \<and>
        int (length (val row)) = sint (valSize g) \<and>
        snd (encodeRow spec_codec [] row) = None \<and>
        DatumSize spec_codec * (length (key row) + length (val row) + 1) \<le> maxAlloc"
    if "row \<in> set (nextRows spec_codec rnd g (nat (sint (scale g))) r)" for row
  proof -
    from R that have lk: "length (key row) = unat (keySize g)"
      and lv: "length (val row) = unat (valSize g)"
      and ok: "OtherDatum \<notin> set (key row)" "OtherDatum \<notin> set (val row)"
      by simp_all
    show ?thesis
      using sint_nonneg_unat [OF K] sint_nonneg_unat [OF V] assms(4)
      by (simp add: lk lv encodeRow_representable [OF ok])
  qed
  then show ?thesis
    using assms(1,2,3) R by (simp add: wellFormed_def)
qed

lemma length_concat_const:
  "(\<forall>x \<in> set xs. length (f x) = k) \<Longrightarrow> length (concat (map f xs)) = k * length xs"
  by (induction xs) simp_all

text \<open>
  C9: for every random source, \<open>export\<close> with scale 10, \<open>keySize\<close> 2 and \<open>valSize\<close> 1 writes
  a file of \<open>24 + 10 * (8 + 36)\<close> bytes, 36 being the length of the encoding of the four
  scalars of each of the ten rows, and \<open>load\<close> with ratio 50 on this file returns the first
  five generated rows in the order of generation.
\<close>

theorem export_load_scenario:
  "let g = \<lparr>scale = 10, keySize = 2, valSize = 1\<rparr>;
       rows = nextRows spec_codec rnd g 10 r
   in \<exists>bytes. fst (export spec_codec rnd g r) = Returns bytes \<and>
        length bytes = 24 + 10 * (8 + 36) \<and>
        map (\<lambda>row. length (fst (encode [] (key row @ val row @ [IntDatum (handle row)]))))
          rows = replicate 10 36 \<and>
        length rows = 10 \<and>
        fst (load spec_codec (Some bytes) g0 50) = Returns (take 5 rows)"
proof -
  define g where "g = \<lparr>scale = 10, keySize = 2, valSize = 1\<rparr>"
  define rows where "rows = nextRows spec_codec rnd g 10 r"
  have g: "scale g = 10" "keySize g = 2" "valSize g = 1" by (simp_all add: g_def)
  have K: "makeslice (DatumSize spec_codec) (keySize g) (keySize g) = None"
    and V: "makeslice (DatumSize spec_codec) (valSize g) (valSize g) = None"
    by (simp_all add: g makeslice_length maxAlloc_def spec_codec_def)
  have mk: "makeslice 8 0 (scale g) = None" by (simp add: g makeslice_scale)
  have n: "nat (sint (scale g)) = 10" by (simp add: g)
  note R = nextRows_spec_codec [OF K V, of rnd 10 r, folded rows_def]
  then have len: "length rows = 10" by simp
  have shape: "length (key row) = 2 \<and> length (val row) = 1 \<and>
      OtherDatum \<notin> set (key row) \<and> OtherDatum \<notin> set (val row)"
    if "row \<in> set rows" for row
    using R that by (simp add: g)
  have payload: "length (fst (encode [] (key row @ val row @ [IntDatum (handle row)]))) = 36"
    if "row \<in> set rows" for row
    using shape [OF that] length_encode [of "key row @ val row @ [IntDatum (handle row)]"]
    by simp
  have rec: "length (fst (encodeRow spec_codec [] row)) = 44" if "row \<in> set rows" for row
    using shape [OF that] payload [OF that]
    by (simp add: encodeRow_representable)
  have wf: "wellFormed spec_codec g rows"
    using wellFormed_nextRows [of g rnd r] by (simp add: g rows_def maxAlloc_def spec_codec_def)
  have exp: "fst (export spec_codec rnd g r) = Returns (dataFile spec_codec g rows)"
    using export_dataFile [OF K V, of rnd r] by (simp only: n rows_def)
  have "length (dataFile spec_codec g rows) = 24 + 44 * length rows"
    using length_concat_const [of rows "\<lambda>row. fst (encodeRow spec_codec [] row)" 44] rec
    by (simp add: dataFile_records length_encodeMeta)
  then have size: "length (dataFile spec_codec g rows) = 24 + 10 * (8 + 36)"
    by (simp add: len)
  have pl: "map (\<lambda>row. length (fst (encode [] (key row @ val row @ [IntDatum (handle row)]))))
      rows = replicate 10 36"
    using payload len by (simp add: map_replicate_const cong: map_cong)
  have "nat (sint (totalRows (scale g) 50)) = 5"
    by (simp add: g totalRows_10_50)
  then have "fst (load spec_codec (Some (dataFile spec_codec g rows)) g0 50) =
      Returns (take 5 rows)"
    using load_wellFormed(1) [OF wf mk, of 50 g0] len by simp
  with exp size pl len show ?thesis
    unfolding Let_def g_def [symmetric] rows_def [symmetric] by blast
qed

end
